theory Spec2Isabelle
  imports Complex_Main "HOL-Library.Char_ord" "HOL-Library.List_Lexorder" "HOL-Library.Multiset"
begin

section \<open>Symbolic Pattern Recognition: data model\<close>

text \<open>
  The class \<open>SPRanal\<close> of \<open>SPR.py\<close>.  A symbol is a one-character Python string and is
  modelled as a \<open>char\<close>; a pattern (ngram) and the sequence are strings.  Python orders
  one-character strings by code point; that order is the linear order of \<open>char\<close>.
  Python's true division of integers yields a float; it is modelled by exact division
  of rationals, so a stored count, total or relative frequency is a \<open>rat\<close>.
\<close>

datatype py_error = IndexError | ValueError | ZeroDivisionError | NameError

type_synonym ngram = string

text \<open>A PTP matrix as the code stores it: \<open>n_s\<close> lists of counts (one list per
  alphabet symbol, one entry per ngram), then the list of totals, then \<open>n_s\<close> lists of
  relative frequencies.\<close>

type_synonym PTP = "rat list list"

record SPRanal =
  alpha :: "char list"
  sequence :: string
  maxn_p :: int
  t_np :: rat
  hashP_p :: int
  hashP_x :: int
  n_p :: nat
  PTPs :: "PTP list"
  ngrams :: "ngram list list"
  sparsities :: "rat list list"
  PTPset :: bool

definition n_s :: "'a SPRanal_scheme \<Rightarrow> nat" where
  "n_s self = length (alpha self)"

definition n :: "'a SPRanal_scheme \<Rightarrow> nat" where
  "n self = length (sequence self)"

section \<open>Python list primitives\<close>

text \<open>\<open>xs * k\<close>: the list repeated \<open>k\<close> times.\<close>

definition py_repeat :: "'a list \<Rightarrow> nat \<Rightarrow> 'a list" where
  "py_repeat xs k = concat (replicate k xs)"

text \<open>\<open>zip(*cols)\<close>: the tuples of the \<open>k\<close>-th elements, until a column runs out;
  no tuple at all when there is no column.\<close>

function zip_star :: "'a list list \<Rightarrow> 'a list list" where
  "zip_star cols =
     (if cols = [] \<or> [] \<in> set cols then []
      else map hd cols # zip_star (map tl cols))"
  by pat_completeness auto
termination
  by (relation "measure (\<lambda>cols. length (hd cols))") (auto simp: hd_map neq_Nil_conv)

declare zip_star.simps [simp del]

text \<open>\<open>xs.index(x)\<close>: the first position of \<open>x\<close>, ValueError when there is none.\<close>

fun py_index :: "'a list \<Rightarrow> 'a \<Rightarrow> py_error + nat" where
  "py_index [] x = Inl ValueError"
| "py_index (y # ys) x =
     (if y = x then Inr 0
      else case py_index ys x of Inl e \<Rightarrow> Inl e | Inr k \<Rightarrow> Inr (Suc k))"

text \<open>\<open>s[-k:]\<close> for \<open>k \<ge> 0\<close>: the last \<open>k\<close> elements, all of \<open>s\<close> when it is shorter,
  and all of \<open>s\<close> when \<open>k = 0\<close> (the slice \<open>s[-0:]\<close> is \<open>s[0:]\<close>).\<close>

definition py_last_k :: "nat \<Rightarrow> 'a list \<Rightarrow> 'a list" where
  "py_last_k k s = (if k = 0 then s else drop (length s - k) s)"

text \<open>\<open>np.unique(xs)\<close>: the distinct elements in ascending order.\<close>

definition np_unique :: "'a::linorder list \<Rightarrow> 'a list" where
  "np_unique xs = sort (remdups xs)"

text \<open>\<open>xs[i]\<close> for \<open>i \<ge> 0\<close>: IndexError out of range.\<close>

definition py_nth :: "'a list \<Rightarrow> nat \<Rightarrow> py_error + 'a" where
  "py_nth xs i = (if i < length xs then Inr (xs ! i) else Inl IndexError)"

text \<open>Sequencing of two steps of which the first may raise.\<close>

definition and_then :: "py_error + 'a \<Rightarrow> ('a \<Rightarrow> py_error + 'b) \<Rightarrow> py_error + 'b" where
  "and_then r f = (case r of Inl e \<Rightarrow> Inl e | Inr v \<Rightarrow> f v)"

text \<open>A list comprehension whose element expression may raise: the first error ends it.\<close>

fun map_err :: "('a \<Rightarrow> py_error + 'b) \<Rightarrow> 'a list \<Rightarrow> py_error + 'b list" where
  "map_err f [] = Inr []"
| "map_err f (x # xs) =
     and_then (f x) (\<lambda>y. and_then (map_err f xs) (\<lambda>ys. Inr (y # ys)))"

text \<open>\<open>max(xs)\<close>: ValueError on the empty list.\<close>

definition py_max :: "rat list \<Rightarrow> py_error + rat" where
  "py_max xs = (case xs of [] \<Rightarrow> Inl ValueError | y # ys \<Rightarrow> Inr (fold max ys y))"



section \<open>MakenGrams\<close>

text \<open>The body of the loop \<open>for cnt in range(maxn_p)\<close>: one column of the table of
  ngrams, the symbol at position \<open>cnt\<close> from the right of every ngram.\<close>

definition ngram_column :: "char list \<Rightarrow> nat \<Rightarrow> nat \<Rightarrow> char list" where
  "ngram_column al mx cnt =
     (let letrepts = length al ^ cnt;
          arrrepts = length al ^ (mx - 1 - cnt);
          tmp = sort (py_repeat al letrepts)
      in py_repeat tmp arrrepts)"

definition ngram_columns :: "char list \<Rightarrow> nat \<Rightarrow> char list list" where
  "ngram_columns al mx = map (ngram_column al mx) [0..<mx]"

text \<open>\<open>[''.join(i) for i in zip(*cols[::-1])]\<close>; joining one-character strings gives
  the string of the characters.\<close>

definition join_columns :: "char list list \<Rightarrow> ngram list" where
  "join_columns cols = zip_star (rev cols)"

text \<open>The loop \<open>for cnt in range(maxn_p-1,1,-1)\<close> with its state \<open>thisngrams\<close> and
  \<open>ngrams\<close>; the first argument lists the values of \<open>cnt\<close> still to come.\<close>

fun teardown :: "nat \<Rightarrow> nat list \<Rightarrow> char list list \<Rightarrow> ngram list list
    \<Rightarrow> char list list \<times> ngram list list" where
  "teardown S [] thisngrams ngs = (thisngrams, ngs)"
| "teardown S (cnt # cnts) thisngrams ngs =
     (let thisngrams' = map (take (S ^ cnt)) (butlast thisngrams)
      in teardown S cnts thisngrams' (ngs @ [join_columns thisngrams']))"

text \<open>\<open>MakenGrams(maxn_p, only=True)\<close>.  \<open>range(maxn_p)\<close> is empty for
  \<open>maxn_p \<le> 0\<close>.\<close>

definition MakenGrams_only :: "char list \<Rightarrow> int \<Rightarrow> ngram list" where
  "MakenGrams_only al mx = join_columns (ngram_columns al (nat mx))"

text \<open>\<open>MakenGrams(maxn_p, only=False)\<close>.\<close>

definition MakenGrams_all :: "char list \<Rightarrow> int \<Rightarrow> ngram list list" where
  "MakenGrams_all al mx =
     (let thisngrams = ngram_columns al (nat mx);
          ngs = [join_columns thisngrams];
          (thisngrams', ngs') = teardown (length al) (rev [2..<nat mx]) thisngrams ngs;
          ngs'' = ngs' @ [map (\<lambda>c. [c]) al]
      in rev ngs'')"

datatype ngrams_result = OnlyList "ngram list" | AllLists "ngram list list"

definition MakenGrams :: "'a SPRanal_scheme \<Rightarrow> int option \<Rightarrow> bool \<Rightarrow> ngrams_result" where
  "MakenGrams self mx only =
     (let mx' = (case mx of None \<Rightarrow> maxn_p self | Some m \<Rightarrow> m)
      in if only then OnlyList (MakenGrams_only (alpha self) mx')
         else AllLists (MakenGrams_all (alpha self) mx'))"

section \<open>HashSearch\<close>

text \<open>Modelled from the spec: \<open>HashSearch\<close> of the module \<open>HashSubstringSearch\<close>, which
  \<open>SPR.py\<close> imports and calls in \<open>BuildPTP\<close>; the module is not among the sources.
  The spec (4.1) has it compute the polynomial hash of the pattern and of every window
  of the pattern's length under the modulus \<open>p\<close> and the base \<open>x\<close>, each window's hash
  from the one before by the rolling update (remove the leading symbol's contribution,
  shift, add the trailing symbol's contribution, all modulo \<open>p\<close>); a window whose hash
  equals the pattern's is a candidate, and a candidate is accepted after a
  character-by-character comparison with the pattern.  A pattern of length 0 or longer
  than the sequence gives the empty result.\<close>

definition ord :: "char \<Rightarrow> int" where
  "ord c = of_char c"

definition PolyHash :: "string \<Rightarrow> int \<Rightarrow> int \<Rightarrow> int" where
  "PolyHash s p x = foldl (\<lambda>h c. (h * x + ord c) mod p) 0 s"

text \<open>The rolling update from the window starting with \<open>lead\<close> to the next one, which
  ends with \<open>trail\<close>; \<open>xL\<close> is the base raised to the pattern's length less one.\<close>

definition roll :: "int \<Rightarrow> int \<Rightarrow> int \<Rightarrow> int \<Rightarrow> char \<Rightarrow> char \<Rightarrow> int" where
  "roll p x xL h lead trail = ((h - ord lead * xL) * x + ord trail) mod p"

text \<open>The character-by-character comparison of the text at a window with the pattern.\<close>

fun AreEqual :: "string \<Rightarrow> string \<Rightarrow> bool" where
  "AreEqual text [] = True"
| "AreEqual [] (c # pat) = False"
| "AreEqual (t # text) (c # pat) = (t = c \<and> AreEqual text pat)"

text \<open>The scan over the windows: \<open>i\<close> is the window's start, \<open>h\<close> its hash and the
  last argument the number of windows after it.\<close>

fun hash_scan :: "string \<Rightarrow> string \<Rightarrow> int \<Rightarrow> int \<Rightarrow> int \<Rightarrow> int \<Rightarrow> nat \<Rightarrow> int \<Rightarrow> nat
    \<Rightarrow> nat list" where
  "hash_scan text pat p x xL hp i h 0 =
     (if h = hp \<and> AreEqual (drop i text) pat then [i] else [])"
| "hash_scan text pat p x xL hp i h (Suc k) =
     (if h = hp \<and> AreEqual (drop i text) pat then [i] else []) @
     hash_scan text pat p x xL hp (Suc i)
       (roll p x xL h (text ! i) (text ! (i + length pat))) k"

definition HashSearch :: "string \<Rightarrow> string \<Rightarrow> int \<Rightarrow> int \<Rightarrow> nat list" where
  "HashSearch text pat p x =
     (let L = length pat; N = length text
      in if L = 0 \<or> L > N then []
         else hash_scan text pat p x (x ^ (L - 1) mod p) (PolyHash pat p x) 0
                (PolyHash (take L text) p x) (N - L))"

section \<open>BuildPTP\<close>

text \<open>\<open>chars = [self.sequence[i+n_p] for i in indxs if i+n_p+1 <= self.n]\<close>\<close>

definition followers :: "'a SPRanal_scheme \<Rightarrow> nat \<Rightarrow> ngram \<Rightarrow> char list" where
  "followers self np ngram =
     map (\<lambda>i. sequence self ! (i + np))
       (filter (\<lambda>i. i + np + 1 \<le> n self)
          (HashSearch (sequence self) ngram (hashP_p self) (hashP_x self)))"

text \<open>\<open>np.unique(chars, return_counts=True)\<close>\<close>

definition np_unique_counts :: "char list \<Rightarrow> char list \<times> nat list" where
  "np_unique_counts chars =
     (let u = np_unique chars in (u, map (count_list chars) u))"

text \<open>\<open>freqs[1][freqs[0]==alph]\<close>: the counts at the positions where the unique value
  is \<open>alph\<close>.\<close>

definition mask_counts :: "char list \<times> nat list \<Rightarrow> char \<Rightarrow> nat list" where
  "mask_counts freqs alph =
     map snd (filter (\<lambda>(u, c). u = alph) (zip (fst freqs) (snd freqs)))"

text \<open>The loop \<open>for j,alph in enumerate(self.alpha)\<close>: \<open>PTP[j][i]\<close> is set to the
  count of \<open>alph\<close>; where the mask selects nothing, the IndexError is caught and
  nothing is done.\<close>

fun tabulate :: "char list \<Rightarrow> char list \<times> nat list \<Rightarrow> nat \<Rightarrow> nat \<Rightarrow> PTP \<Rightarrow> PTP" where
  "tabulate [] freqs i j P = P"
| "tabulate (alph # rest) freqs i j P =
     tabulate rest freqs i (Suc j)
       (case mask_counts freqs alph of
          [] \<Rightarrow> P
        | c # _ \<Rightarrow> P[j := (P ! j)[i := of_nat c]])"

text \<open>The loop \<open>for i,ngram in zip(ngramsInd,searchMe)\<close> with its state \<open>PTP\<close> and
  \<open>fndPatts\<close>.\<close>

fun BuildPTP_loop :: "'a SPRanal_scheme \<Rightarrow> nat \<Rightarrow> (nat \<times> ngram) list \<Rightarrow> PTP \<times> ngram list
    \<Rightarrow> PTP \<times> ngram list" where
  "BuildPTP_loop self np [] st = st"
| "BuildPTP_loop self np ((i, ngram) # rest) (P, fndPatts) =
     (let chars = followers self np ngram;
          freqs = np_unique_counts chars
      in if length (fst freqs) \<noteq> 0
         then BuildPTP_loop self np rest
                (tabulate (alpha self) freqs i 0 P,
                 fndPatts @ map (\<lambda>alph. ngram @ [alph]) (fst freqs))
         else BuildPTP_loop self np rest (P, fndPatts))"

text \<open>\<open>[ngrams.index(i) for i in ngramsRed]\<close>\<close>

fun index_all :: "ngram list \<Rightarrow> ngram list \<Rightarrow> py_error + nat list" where
  "index_all ngs [] = Inr []"
| "index_all ngs (g # gs) =
     (case py_index ngs g of
        Inl e \<Rightarrow> Inl e
      | Inr k \<Rightarrow> (case index_all ngs gs of Inl e \<Rightarrow> Inl e | Inr ks \<Rightarrow> Inr (k # ks)))"

text \<open>The totals and the relative frequencies appended to the counts.\<close>

definition finish_PTP :: "PTP \<Rightarrow> PTP" where
  "finish_PTP P =
     (let tots = map sum_list (zip_star P);
          P' = P @ [tots];
          rel = map (\<lambda>col. map (\<lambda>(i, t). if t \<noteq> 0 then i / t else 0) (zip col tots))
                  (butlast P')
      in P' @ rel)"

definition BuildPTP :: "'a SPRanal_scheme \<Rightarrow> ngram list \<Rightarrow> ngram list option
    \<Rightarrow> py_error + PTP \<times> ngram list" where
  "BuildPTP self ngs ngramsRed =
     (let P0 = replicate (n_s self) (replicate (length ngs) 0)
      in case ngs of
           [] \<Rightarrow> Inl IndexError
         | g # _ \<Rightarrow>
             (let np = length g
              in case (case ngramsRed of
                         None \<Rightarrow> Inr (ngs, [0..<length ngs])
                       | Some red \<Rightarrow>
                           (case index_all ngs red of
                              Inl e \<Rightarrow> Inl e
                            | Inr inds \<Rightarrow> Inr (red, inds))) of
                   Inl e \<Rightarrow> Inl e
                 | Inr (searchMe, ngramsInd) \<Rightarrow>
                     (let (P, fndPatts) =
                            BuildPTP_loop self np (zip ngramsInd searchMe) (P0, [])
                      in Inr (finish_PTP P, fndPatts))))"

section \<open>BuildPTPs\<close>

text \<open>The state of the loop of \<open>BuildPTPs\<close>: the rows Observed and SI of
  \<open>sparsTities\<close> (the row Possible does not change), \<open>fnd_ip1\<close> and \<open>PTPs\<close>.\<close>

record build_state =
  sp_obs :: "rat list"
  sp_si :: "rat list"
  fnd_ip1 :: "ngram list"
  acc_PTPs :: "PTP list"

text \<open>The loop \<open>for i in range(0,self.maxn_p)\<close>.  The arguments are the values of
  \<open>i\<close> still to come and the value \<open>i\<close> has now, if any.  The result holds the value
  of \<open>i\<close> when the loop is left, by \<open>break\<close> or at its end.\<close>

fun BuildPTPs_loop :: "'a SPRanal_scheme \<Rightarrow> ngram list list \<Rightarrow> rat list \<Rightarrow> nat list
    \<Rightarrow> nat option \<Rightarrow> build_state \<Rightarrow> py_error + nat option \<times> build_state" where
  "BuildPTPs_loop self ngramS poss [] cur st = Inr (cur, st)"
| "BuildPTPs_loop self ngramS poss (i # rest) cur st =
     (let obs = of_nat (length (np_unique (map butlast (fnd_ip1 st))));
          st1 = st\<lparr>sp_obs := (sp_obs st)[i := obs]\<rparr>
      in if poss ! i = 0 then Inl ZeroDivisionError
         else
           (let st2 = st1\<lparr>sp_si := (sp_si st1)[i := obs / poss ! i]\<rparr>
            in if sp_si st2 ! i < t_np self then Inr (Some i, st2)
               else
                 and_then (py_nth ngramS i) (\<lambda>ngs.
                 and_then (BuildPTP self ngs (Some (fnd_ip1 st2))) (\<lambda>(PTP_i, fnd).
                   BuildPTPs_loop self ngramS poss rest (Some i)
                     (st2\<lparr>fnd_ip1 := fnd, acc_PTPs := acc_PTPs st2 @ [PTP_i]\<rparr>)))))"

text \<open>\<open>BuildPTPs\<close> up to the statement \<open>i += (sparsTities[2][i] >= self.t_np)\<close>: the
  final \<open>i\<close> and the state of the loop.  After a loop that never ran, \<open>i\<close> is not
  bound.\<close>

definition BuildPTPs_run :: "'a SPRanal_scheme \<Rightarrow> py_error + nat \<times> build_state" where
  "BuildPTPs_run self =
     (let ngramS = MakenGrams_all (alpha self) (maxn_p self);
          mx = nat (maxn_p self);
          poss = map (\<lambda>i. of_nat (n_s self ^ i)) [1..<mx + 1];
          st0 = \<lparr>sp_obs = replicate mx 0, sp_si = replicate mx 0,
                 fnd_ip1 = map (\<lambda>c. [c]) (np_unique (sequence self)), acc_PTPs = []\<rparr>
      in and_then (BuildPTPs_loop self ngramS poss [0..<mx] None st0) (\<lambda>(cur, st).
           case cur of
             None \<Rightarrow> Inl NameError
           | Some i \<Rightarrow> Inr (i + (if sp_si st ! i \<ge> t_np self then 1 else 0), st)))"

text \<open>\<open>BuildPTPs\<close>: the object after \<open>__SetPTP__\<close>.\<close>

definition BuildPTPs :: "SPRanal \<Rightarrow> py_error + SPRanal" where
  "BuildPTPs self =
     and_then (BuildPTPs_run self) (\<lambda>(i, st).
       let mx = nat (maxn_p self);
           sparsTities = [sp_obs st, map (\<lambda>i. of_nat (n_s self ^ i)) [1..<mx + 1], sp_si st]
       in Inr (self\<lparr>n_p := i, PTPs := acc_PTPs st,
                    ngrams := take i (MakenGrams_all (alpha self) (maxn_p self)),
                    sparsities := map (take i) sparsTities, PTPset := True\<rparr>))"

section \<open>Predict\<close>

text \<open>The loop \<open>for i in range(w)\<close> with its state \<open>alphaProbs\<close> and \<open>w\<close>.\<close>

fun Predict_loop :: "SPRanal \<Rightarrow> string \<Rightarrow> nat list \<Rightarrow> rat list list \<times> int
    \<Rightarrow> py_error + rat list list \<times> int" where
  "Predict_loop self predStart [] st = Inr st"
| "Predict_loop self predStart (i # rest) (alphaProbs, w) =
     (let seqEnd = py_last_k (i + 1) predStart
      in and_then (py_nth (ngrams self) i) (\<lambda>ngs.
         and_then (py_index ngs seqEnd) (\<lambda>nxtRow.
         and_then (py_nth (PTPs self) i) (\<lambda>P.
         and_then (map_err (\<lambda>p. py_nth p nxtRow) (drop (n_s self + 1) P)) (\<lambda>row.
         and_then (py_nth P (n_s self)) (\<lambda>tots.
         and_then (py_nth tots nxtRow) (\<lambda>t.
           Predict_loop self predStart rest
             (alphaProbs @ [row], w - (if t = 0 then 1 else 0)))))))))"

text \<open>\<open>[sum(i)/w for i in zip(*alphaProbs)]\<close>: the division is reached only when
  there is a tuple.\<close>

definition average :: "rat list list \<Rightarrow> int \<Rightarrow> py_error + rat list" where
  "average alphaProbs w =
     map_err (\<lambda>col. if w = 0 then Inl ZeroDivisionError else Inr (sum_list col / of_int w))
       (zip_star alphaProbs)"

definition Predict :: "SPRanal \<Rightarrow> string option \<Rightarrow> py_error + char \<times> rat list" where
  "Predict self predStart =
     (let (ps, w) = (case predStart of
                       None \<Rightarrow> (py_last_k (n_p self) (sequence self), n_p self)
                     | Some s \<Rightarrow> (s, min (length s) (n_p self)))
      in and_then (Predict_loop self ps [0..<w] ([], int w)) (\<lambda>(alphaProbs, w').
         and_then (average alphaProbs w') (\<lambda>probs.
         and_then (py_max probs) (\<lambda>m.
         and_then (py_index probs m) (\<lambda>k.
         and_then (py_nth (alpha self) k) (\<lambda>a. Inr (a, probs)))))))"

section \<open>Simulate\<close>




section \<open>Distance\<close>

text \<open>\<open>np.zeros((rows,cols))\<close>\<close>

definition np_zeros :: "nat \<Rightarrow> nat \<Rightarrow> rat list list" where
  "np_zeros rows cols = replicate rows (replicate cols 0)"

text \<open>\<open>tmp = np.zeros((rows,cols)); tmp[:m.shape[0],:m.shape[1]] = m\<close> for a block \<open>m\<close>
  that fits.\<close>

definition embed :: "nat \<Rightarrow> nat \<Rightarrow> rat list list \<Rightarrow> rat list list" where
  "embed rows cols m =
     map (\<lambda>r. r @ replicate (cols - length r) 0) m @
     replicate (rows - length m) (replicate cols 0)"

text \<open>Whether a nested list is a two-dimensional array of the given shape.\<close>

definition has_shape :: "nat \<Rightarrow> nat \<Rightarrow> rat list list \<Rightarrow> bool" where
  "has_shape rows cols m \<longleftrightarrow> length m = rows \<and> list_all (\<lambda>r. length r = cols) m"

text \<open>One operand of the difference at the scale \<open>k\<close>: the relative frequencies of
  \<open>PTPs[k]\<close>, embedded in a block of zeros when the alphabet is the smaller one, and a
  block of zeros when \<open>PTPs[k]\<close> raises IndexError.  The relative frequencies of a PTP
  matrix that \<open>BuildPTP\<close> made are \<open>n_s\<close> lists of one length; numpy's treatment of
  anything else (ragged lists, a block that does not fit) is not modelled, and reported
  as ValueError.\<close>

definition probs_block :: "SPRanal \<Rightarrow> nat \<Rightarrow> nat \<Rightarrow> py_error + rat list list" where
  "probs_block m Ns k =
     (case py_nth (PTPs m) k of
        Inl e \<Rightarrow> Inr (np_zeros Ns (Ns ^ (k + 1)))
      | Inr P \<Rightarrow>
          (let mine = drop (n_s m + 1) P
           in if mine = [] \<or> \<not> has_shape (length mine) (length (hd mine)) mine
              then Inl ValueError
              else if n_s m < Ns
              then (if length mine \<le> Ns \<and> length (hd mine) \<le> Ns ^ (k + 1)
                    then Inr (embed Ns (Ns ^ (k + 1)) mine) else Inl ValueError)
              else Inr mine))"

text \<open>\<open>np.sum(np.abs(his - mine))\<close> for two blocks of one shape.\<close>

definition sum_abs_diff :: "rat list list \<Rightarrow> rat list list \<Rightarrow> py_error + rat" where
  "sum_abs_diff his mine =
     (if length his = length mine \<and> list_all2 (\<lambda>a b. length a = length b) his mine
      then Inr (sum_list (map (\<lambda>(a, b). sum_list (map (\<lambda>(x, y). \<bar>x - y\<bar>) (zip a b)))
                            (zip his mine)))
      else Inl ValueError)"

text \<open>The loop \<open>for n_p in range(Np)\<close> with its state \<open>diff\<close>.\<close>

fun Distance_loop :: "SPRanal \<Rightarrow> SPRanal \<Rightarrow> nat \<Rightarrow> nat list \<Rightarrow> rat \<Rightarrow> py_error + rat" where
  "Distance_loop self otherSPR Ns [] diff = Inr diff"
| "Distance_loop self otherSPR Ns (k # rest) diff =
     and_then (probs_block self Ns k) (\<lambda>mine.
     and_then (probs_block otherSPR Ns k) (\<lambda>his.
     and_then (sum_abs_diff his mine) (\<lambda>d.
       Distance_loop self otherSPR Ns rest (diff + d))))"

definition Distance :: "SPRanal \<Rightarrow> SPRanal \<Rightarrow> py_error + rat" where
  "Distance self otherSPR =
     (let Ns = max (n_s self) (n_s otherSPR);
          Np = max (n_p self) (n_p otherSPR)
      in Distance_loop self otherSPR Ns [0..<Np] 0)"

section \<open>Properties of the specification\<close>



text \<open>The order of the patterns that the alphabet's declared order induces: a symbol
  is ranked by its position in the alphabet, and patterns are compared
  lexicographically by the ranks of their symbols.\<close>

fun index_of :: "'a list \<Rightarrow> 'a \<Rightarrow> nat" where
  "index_of [] x = 0"
| "index_of (y # ys) x = (if x = y then 0 else Suc (index_of ys x))"

fun alpha_le :: "'a list \<Rightarrow> 'a list \<Rightarrow> 'a list \<Rightarrow> bool" where
  "alpha_le al [] ys = True"
| "alpha_le al (x # xs) [] = False"
| "alpha_le al (x # xs) (y # ys) =
     (index_of al x < index_of al y \<or> (index_of al x = index_of al y \<and> alpha_le al xs ys))"

definition sorted_in_alphabet_order :: "'a list \<Rightarrow> 'a list list \<Rightarrow> bool" where
  "sorted_in_alphabet_order al xs = sorted_wrt (alpha_le al) xs"

text \<open>The value of the polynomial that the hash reduces modulo \<open>p\<close>.\<close>

definition poly_val :: "string \<Rightarrow> int \<Rightarrow> int" where
  "poly_val s x = foldl (\<lambda>h c. h * x + ord c) 0 s"


definition ex3 :: SPRanal where
  "ex3 = \<lparr>alpha = ''ab'', sequence = ''abba'', maxn_p = 3, t_np = 1 / 3,
     hashP_p = 7, hashP_x = 3, n_p = 0, PTPs = [], ngrams = [], sparsities = [],
     PTPset = False\<rparr>"

definition ex3b :: SPRanal where
  "ex3b = \<lparr>alpha = ''ab'', sequence = ''abba'', maxn_p = 3, t_np = 3 / 4,
     hashP_p = 7, hashP_x = 3, n_p = 0, PTPs = [], ngrams = [], sparsities = [],
     PTPset = False\<rparr>"

definition ex3_state :: build_state where
  "ex3_state = \<lparr>sp_obs = [1, 2, 2], sp_si = [1 / 2, 1 / 2, 1 / 4],
     fnd_ip1 = [''abb'', ''bba''],
     acc_PTPs = [[[0, 1], [1, 1], [1, 2], [0, 1 / 2], [1, 1 / 2]],
                 [[0, 0, 0, 1], [0, 1, 0, 0], [0, 1, 0, 1], [0, 0, 0, 1], [0, 1, 0, 0]]]\<rparr>"

definition ex3_built :: SPRanal where
  "ex3_built = ex3\<lparr>n_p := 2,
     PTPs := [[[0, 1], [1, 1], [1, 2], [0, 1 / 2], [1, 1 / 2]],
              [[0, 0, 0, 1], [0, 1, 0, 0], [0, 1, 0, 1], [0, 0, 0, 1], [0, 1, 0, 0]]],
     ngrams := [[''a'', ''b''], [''aa'', ''ab'', ''ba'', ''bb'']],
     sparsities := [[1, 2], [2, 4], [1 / 2, 1 / 2]], PTPset := True\<rparr>"

text \<open>Whether the entry \<open>j\<close> of the row SI is the observed count over the possible
  count.\<close>

definition si_ok :: "rat list \<Rightarrow> build_state \<Rightarrow> nat \<Rightarrow> bool" where
  "si_ok poss st j \<longleftrightarrow> sp_si st ! j = sp_obs st ! j / poss ! j"

text \<open>How often the symbol \<open>j\<close> of the alphabet follows the pattern \<open>g\<close>.\<close>

definition follow_count :: "'a SPRanal_scheme \<Rightarrow> nat \<Rightarrow> ngram \<Rightarrow> nat \<Rightarrow> rat" where
  "follow_count self np g j = of_nat (count_list (followers self np g) (alpha self ! j))"

definition ex10 :: SPRanal where
  "ex10 = \<lparr>alpha = ''ab'', sequence = ''abc'', maxn_p = 2, t_np = 0,
     hashP_p = 7, hashP_x = 3, n_p = 0, PTPs = [], ngrams = [], sparsities = [],
     PTPset = False\<rparr>"

text \<open>One pass of the loop of \<open>Predict\<close> for the scale \<open>i\<close>: the row of relative
  frequencies that is appended to \<open>alphaProbs\<close> and the total that decides whether \<open>w\<close>
  is decremented.\<close>

definition scale_row :: "SPRanal \<Rightarrow> string \<Rightarrow> nat \<Rightarrow> py_error + rat list \<times> rat" where
  "scale_row self predStart i =
     (let seqEnd = py_last_k (i + 1) predStart
      in and_then (py_nth (ngrams self) i) (\<lambda>ngs.
         and_then (py_index ngs seqEnd) (\<lambda>nxtRow.
         and_then (py_nth (PTPs self) i) (\<lambda>P.
         and_then (map_err (\<lambda>p. py_nth p nxtRow) (drop (n_s self + 1) P)) (\<lambda>row.
         and_then (py_nth P (n_s self)) (\<lambda>tots.
         and_then (py_nth tots nxtRow) (\<lambda>t. Inr (row, t))))))))"

text \<open>The context and the weight \<open>w\<close> that \<open>Predict\<close> starts from.\<close>

definition pred_context :: "SPRanal \<Rightarrow> string option \<Rightarrow> string" where
  "pred_context self predStart =
     (case predStart of None \<Rightarrow> py_last_k (n_p self) (sequence self) | Some s \<Rightarrow> s)"

definition pred_weight :: "SPRanal \<Rightarrow> string option \<Rightarrow> nat" where
  "pred_weight self predStart =
     (case predStart of None \<Rightarrow> n_p self | Some s \<Rightarrow> min (length s) (n_p self))"

definition ex5_input :: SPRanal where
  "ex5_input = \<lparr>alpha = ''ab'', sequence = ''ab'', maxn_p = 1, t_np = 0,
     hashP_p = 7, hashP_x = 3, n_p = 0, PTPs = [], ngrams = [], sparsities = [],
     PTPset = False\<rparr>"

definition ex5 :: SPRanal where
  "ex5 = ex5_input\<lparr>n_p := 1, PTPs := [[[0, 0], [1, 0], [1, 0], [0, 0], [1, 0]]],
     ngrams := [[''a'', ''b'']], sparsities := [[1], [2], [1 / 2]], PTPset := True\<rparr>"

text \<open>The shape of the PTP matrix made at the index \<open>i\<close> of the loop of \<open>BuildPTPs\<close>:
  its relative frequencies are \<open>n_s\<close> lists with one entry per ngram of \<open>ngramS[i]\<close>.\<close>

definition PTP_shaped :: "'a SPRanal_scheme \<Rightarrow> ngram list list \<Rightarrow> rat list \<Rightarrow> nat \<Rightarrow> PTP \<Rightarrow> bool" where
  "PTP_shaped self ngramS poss i P \<longleftrightarrow>
     i < length ngramS \<and> poss ! i \<noteq> 0 \<and>
     has_shape (n_s self) (length (ngramS ! i)) (drop (n_s self + 1) P)"

text \<open>The shape of the retained matrices of a model: there are \<open>n_p\<close> of them, and the
  relative frequencies of the matrix of the length \<open>k + 1\<close> are \<open>n_s\<close> lists of
  \<open>n_s ^ (k + 1)\<close> entries.\<close>

definition PTPs_shaped :: "SPRanal \<Rightarrow> bool" where
  "PTPs_shaped m \<longleftrightarrow>
     length (PTPs m) = n_p m \<and>
     (\<forall>k<n_p m. 1 \<le> n_s m \<and>
        has_shape (n_s m) (n_s m ^ (k + 1)) (drop (n_s m + 1) (PTPs m ! k)))"

text \<open>The sequence \<open>abcab\<close> over the alphabet \<open>a, b, c\<close>, and the model that \<open>BuildPTPs\<close>
  makes of it.\<close>

definition ex8_input :: SPRanal where
  "ex8_input = \<lparr>alpha = ''abc'', sequence = ''abcab'', maxn_p = 2, t_np = 0,
     hashP_p = 7, hashP_x = 3, n_p = 0, PTPs = [], ngrams = [], sparsities = [],
     PTPset = False\<rparr>"

definition ex8 :: SPRanal where
  "ex8 = ex8_input\<lparr>n_p := 2,
     PTPs := [[[0, 0, 1], [2, 0, 0], [0, 1, 0], [2, 1, 1], [0, 0, 1], [1, 0, 0], [0, 1, 0]],
              [[0, 0, 0, 0, 0, 1, 0, 0, 0], [0, 0, 0, 0, 0, 0, 1, 0, 0],
               [0, 1, 0, 0, 0, 0, 0, 0, 0], [0, 1, 0, 0, 0, 1, 1, 0, 0],
               [0, 0, 0, 0, 0, 1, 0, 0, 0], [0, 0, 0, 0, 0, 0, 1, 0, 0],
               [0, 1, 0, 0, 0, 0, 0, 0, 0]]],
     ngrams := [[''a'', ''b'', ''c''],
                [''aa'', ''ab'', ''ac'', ''ba'', ''bb'', ''bc'', ''ca'', ''cb'', ''cc'']],
     sparsities := [[1, 3], [3, 9], [1 / 3, 1 / 3]], PTPset := True\<rparr>"

section \<open>Basic facts\<close>

subsection \<open>The ngram generator\<close>

lemma zip_star_empty: "cols = [] \<or> [] \<in> set cols \<Longrightarrow> zip_star cols = []"
  by (subst zip_star.simps) simp

lemma zip_star_step:
  "cols \<noteq> [] \<Longrightarrow> [] \<notin> set cols \<Longrightarrow> zip_star cols = map hd cols # zip_star (map tl cols)"
  by (subst zip_star.simps) simp

lemma zip_star_Nil [simp]: "zip_star [] = []"
  by (simp add: zip_star_empty)

lemma zip_star_all_empty: "\<forall>c\<in>set cols. f c = [] \<Longrightarrow> zip_star (map f cols) = []"
  by (cases cols) (simp_all add: zip_star_empty)

lemma zip_star_single: "zip_star [c] = map (\<lambda>x. [x]) c"
proof (induction c)
  case Nil
  show ?case by (simp add: zip_star_empty)
next
  case (Cons x c)
  then show ?case by (simp add: zip_star_step)
qed

lemma zip_star_Cons:
  "cs \<noteq> [] \<Longrightarrow> zip_star (c # cs) = map2 (#) c (zip_star cs)"
proof (induction c arbitrary: cs)
  case Nil
  show ?case by (simp add: zip_star_empty)
next
  case (Cons x c')
  show ?case
  proof (cases "[] \<in> set cs")
    case True
    then show ?thesis by (simp add: zip_star_empty)
  next
    case False
    with Cons.prems have "zip_star cs = map hd cs # zip_star (map tl cs)"
      by (simp add: zip_star_step)
    moreover have "zip_star ((x # c') # cs) = (x # map hd cs) # zip_star (c' # map tl cs)"
      using False by (simp add: zip_star_step)
    moreover have "zip_star (c' # map tl cs) = map2 (#) c' (zip_star (map tl cs))"
      using Cons.prems by (intro Cons.IH) simp
    ultimately show ?thesis by simp
  qed
qed

lemma zip_star_append:
  "\<forall>c\<in>set cols. length (g c) = m \<Longrightarrow>
   zip_star (map (\<lambda>c. g c @ f c) cols) = zip_star (map g cols) @ zip_star (map f cols)"
proof (induction m arbitrary: g)
  case 0
  then have a: "map (\<lambda>c. g c @ f c) cols = map f cols"
    by (intro map_cong) simp_all
  have b: "zip_star (map g cols) = []"
    using 0 by (intro zip_star_all_empty) simp
  show ?case unfolding a b by simp
next
  case (Suc m)
  show ?case
  proof (cases "cols = []")
    case True
    then show ?thesis by simp
  next
    case False
    from Suc.prems have ne: "\<forall>c\<in>set cols. g c \<noteq> []" by auto
    have 1: "zip_star (map (\<lambda>c. g c @ f c) cols) =
        map hd (map (\<lambda>c. g c @ f c) cols) # zip_star (map tl (map (\<lambda>c. g c @ f c) cols))"
      using False ne by (intro zip_star_step) auto
    have 2: "zip_star (map g cols) = map hd (map g cols) # zip_star (map tl (map g cols))"
      using False ne by (intro zip_star_step) auto
    have 3: "map hd (map (\<lambda>c. g c @ f c) cols) = map hd (map g cols)"
      using ne by simp
    have 4: "map tl (map (\<lambda>c. g c @ f c) cols) = map (\<lambda>c. tl (g c) @ f c) cols"
      using ne by simp
    have 5: "zip_star (map (\<lambda>c. tl (g c) @ f c) cols) =
        zip_star (map (\<lambda>c. tl (g c)) cols) @ zip_star (map f cols)"
      using Suc.prems by (intro Suc.IH) auto
    show ?thesis unfolding 1 2 3 4 5 by (simp add: comp_def)
  qed
qed

lemma zip_star_repeat:
  assumes "\<forall>c\<in>set cols. length c = m"
  shows "zip_star (map (\<lambda>c. py_repeat c k) cols) = py_repeat (zip_star cols) k"
proof (induction k)
  case 0
  have "zip_star (map (\<lambda>c. py_repeat c 0) cols) = []"
    by (intro zip_star_all_empty) (simp add: py_repeat_def)
  then show ?case by (simp add: py_repeat_def)
next
  case (Suc k)
  have "zip_star (map (\<lambda>c. py_repeat c (Suc k)) cols) =
      zip_star (map (\<lambda>c. (\<lambda>c. c) c @ py_repeat c k) cols)"
    by (simp add: py_repeat_def)
  also have "\<dots> = zip_star (map (\<lambda>c. c) cols) @ zip_star (map (\<lambda>c. py_repeat c k) cols)"
    using assms by (intro zip_star_append) auto
  finally show ?case using Suc by (simp add: py_repeat_def)
qed

lemma map2_Cons_blocks:
  "length rows = m \<Longrightarrow>
   map2 (#) (concat (map (replicate m) xs)) (concat (replicate (length xs) rows)) =
   concat (map (\<lambda>a. map ((#) a) rows) xs)"
proof (induction xs)
  case Nil
  show ?case by simp
next
  case (Cons a xs)
  have "map2 (#) (replicate m a) rows = map ((#) a) rows"
    using Cons.prems by (induction rows arbitrary: m) auto
  with Cons show ?case by (simp add: zip_append)
qed

lemma count_list_replicate: "count_list (replicate k x) a = (if x = a then k else 0)"
  by (induction k) auto

lemma count_list_repeat: "count_list (py_repeat xs k) a = k * count_list xs a"
  by (induction k) (simp_all add: py_repeat_def)

lemma count_list_blocks: "count_list (concat (map (replicate k) xs)) a = k * count_list xs a"
  by (induction xs) (simp_all add: count_list_replicate)

lemma sorted_blocks: "sorted xs \<Longrightarrow> sorted (concat (map (replicate k) xs))"
  by (induction xs) (auto simp: sorted_append)

lemma sort_py_repeat:
  "sort (py_repeat al k) = concat (map (replicate k) (sort al))"
proof (rule properties_for_sort)
  have "count_list (sort al) a = count_list al a" for a
    by (metis count_mset mset_sort)
  then show "mset (concat (map (replicate k) (sort al))) = mset (py_repeat al k)"
    by (intro multiset_eqI) (simp add: count_mset count_list_blocks count_list_repeat)
  show "sorted (concat (map (replicate k) (sort al)))"
    by (simp add: sorted_blocks)
qed

lemma length_py_repeat [simp]: "length (py_repeat xs k) = k * length xs"
  by (induction k) (simp_all add: py_repeat_def)

lemma py_repeat_mult: "py_repeat xs (a * b) = py_repeat (py_repeat xs b) a"
  by (induction a) (simp_all add: py_repeat_def replicate_add)

lemma py_repeat_1 [simp]: "py_repeat xs (Suc 0) = xs"
  by (simp add: py_repeat_def)

lemma ngram_column_Suc:
  "cnt < L \<Longrightarrow> ngram_column al (Suc L) cnt = py_repeat (ngram_column al L cnt) (length al)"
proof -
  assume "cnt < L"
  then have "Suc L - 1 - cnt = Suc (L - 1 - cnt)" by simp
  then show ?thesis
    by (simp add: ngram_column_def Let_def py_repeat_mult)
qed

lemma ngram_column_top:
  "ngram_column al (Suc L) L = concat (map (replicate (length al ^ L)) (sort al))"
  by (simp add: ngram_column_def Let_def sort_py_repeat)

lemma length_ngram_column:
  assumes "cnt < L"
  shows "length (ngram_column al L cnt) = length al ^ L"
proof -
  from assms have "L = (L - 1 - cnt) + cnt + 1" by simp
  then have "length al ^ L = length al ^ (L - 1 - cnt) * (length al ^ cnt * length al)"
    by (metis power_add power_one_right mult.assoc)
  then show ?thesis by (simp add: ngram_column_def Let_def)
qed

lemma length_product_replicate:
  "length (product_lists (replicate L xs)) = length xs ^ L"
  by (induction L) (simp_all add: length_concat comp_def sum_list_triv)

lemma rev_ngram_columns_Suc:
  "rev (ngram_columns al (Suc L)) =
   concat (map (replicate (length al ^ L)) (sort al)) #
   map (\<lambda>c. py_repeat c (length al)) (rev (ngram_columns al L))"
proof -
  have "map (ngram_column al (Suc L)) [0..<L] =
        map (\<lambda>c. py_repeat c (length al)) (map (ngram_column al L) [0..<L])"
    by (simp add: ngram_column_Suc)
  then show ?thesis
    by (simp add: ngram_columns_def ngram_column_top rev_map)
qed

lemma join_columns_product:
  "0 < L \<Longrightarrow> join_columns (ngram_columns al L) = product_lists (replicate L (sort al))"
proof (induction L)
  case 0
  then show ?case by simp
next
  case (Suc L)
  show ?case
  proof (cases "L = 0")
    case True
    have "ngram_columns al (Suc 0) = [sort al]"
      by (simp add: ngram_columns_def ngram_column_def Let_def)
    then show ?thesis using True
      by (simp add: join_columns_def zip_star_single)
  next
    case False
    then have L: "0 < L" by simp
    let ?S = "length al" and ?rows = "product_lists (replicate L (sort al))"
    have ne: "map (\<lambda>c. py_repeat c ?S) (rev (ngram_columns al L)) \<noteq> []"
      using L by (simp add: ngram_columns_def)
    have len: "\<forall>c\<in>set (rev (ngram_columns al L)). length c = ?S ^ L"
      by (auto simp: ngram_columns_def length_ngram_column)
    have "join_columns (ngram_columns al (Suc L)) =
        map2 (#) (concat (map (replicate (?S ^ L)) (sort al)))
          (zip_star (map (\<lambda>c. py_repeat c ?S) (rev (ngram_columns al L))))"
      unfolding join_columns_def rev_ngram_columns_Suc by (rule zip_star_Cons[OF ne])
    also have "zip_star (map (\<lambda>c. py_repeat c ?S) (rev (ngram_columns al L))) =
        py_repeat (zip_star (rev (ngram_columns al L))) ?S"
      by (rule zip_star_repeat[OF len])
    also have "zip_star (rev (ngram_columns al L)) = ?rows"
      using Suc.IH[OF L] by (simp add: join_columns_def)
    also have "map2 (#) (concat (map (replicate (?S ^ L)) (sort al))) (py_repeat ?rows ?S) =
        concat (map (\<lambda>a. map ((#) a) ?rows) (sort al))"
      using map2_Cons_blocks[of ?rows "?S ^ L" "sort al"]
      by (simp add: py_repeat_def length_product_replicate)
    finally show ?thesis by simp
  qed
qed

lemma take_py_repeat:
  "length X = m \<Longrightarrow> 0 < k \<or> X = [] \<Longrightarrow> take m (py_repeat X k) = X"
  by (cases k) (auto simp: py_repeat_def)

lemma teardown_step:
  assumes "0 < cnt"
  shows "map (take (length al ^ cnt)) (butlast (ngram_columns al (Suc cnt))) =
         ngram_columns al cnt"
proof -
  have "butlast (ngram_columns al (Suc cnt)) = map (ngram_column al (Suc cnt)) [0..<cnt]"
    by (simp add: ngram_columns_def)
  moreover have "take (length al ^ cnt) (ngram_column al (Suc cnt) c) = ngram_column al cnt c"
    if "c < cnt" for c
  proof -
    have "length al = 0 \<Longrightarrow> ngram_column al cnt c = []"
      using length_ngram_column[OF that, of al] assms by (simp add: power_0_left)
    then have "0 < length al \<or> ngram_column al cnt c = []" by auto
    with take_py_repeat[OF length_ngram_column[OF that]] ngram_column_Suc[OF that]
    show ?thesis by simp
  qed
  ultimately show ?thesis by (simp add: ngram_columns_def)
qed

lemma teardown_range:
  "0 < lo \<Longrightarrow> lo \<le> hi \<Longrightarrow>
   teardown (length al) (rev [lo..<hi]) (ngram_columns al hi) ngs =
   (ngram_columns al lo,
    ngs @ map (\<lambda>k. join_columns (ngram_columns al k)) (rev [lo..<hi]))"
proof (induction hi arbitrary: ngs)
  case 0
  then show ?case by simp
next
  case (Suc h)
  show ?case
  proof (cases "lo = Suc h")
    case True
    then show ?thesis by simp
  next
    case False
    with Suc.prems have lh: "lo \<le> h" and h0: "0 < h" by auto
    have "rev [lo..<Suc h] = h # rev [lo..<h]" using lh by simp
    then show ?thesis
      using Suc.IH[OF Suc.prems(1) lh] teardown_step[OF h0, of al]
      by (simp add: Let_def)
  qed
qed

lemma MakenGrams_all_eq:
  "MakenGrams_all al mx =
   map (\<lambda>c. [c]) al #
   map (\<lambda>k. join_columns (ngram_columns al k)) ([2..<nat mx] @ [nat mx])"
proof (cases "2 \<le> nat mx")
  case True
  with teardown_range[of 2 "nat mx" al] show ?thesis
    by (simp add: MakenGrams_all_def Let_def rev_map)
next
  case False
  then show ?thesis by (simp add: MakenGrams_all_def Let_def)
qed

lemma MakenGrams_all_nth:
  assumes "1 \<le> L" and "int L \<le> mx"
  shows "MakenGrams_all al mx ! (L - 1) =
         (if L = 1 then map (\<lambda>c. [c]) al else product_lists (replicate L (sort al)))"
proof (cases "L = 1")
  case True
  then show ?thesis by (simp add: MakenGrams_all_eq)
next
  case False
  with assms have L2: "2 \<le> L" and Lm: "L \<le> nat mx" by auto
  then obtain j where j: "L = j + 2" by (metis le_add_diff_inverse2)
  have "(map (\<lambda>k. join_columns (ngram_columns al k)) ([2..<nat mx] @ [nat mx])) ! j =
        join_columns (ngram_columns al L)"
  proof (cases "L = nat mx")
    case True
    then have "length [2..<nat mx] = j" using j by simp
    then show ?thesis using True by (simp add: nth_append)
  next
    case False
    with Lm j have "j < length [2..<nat mx]" by simp
    then show ?thesis using j by (simp add: nth_append add.commute)
  qed
  with j show ?thesis
    by (simp add: MakenGrams_all_eq join_columns_product)
qed

lemma MakenGrams_only_eq:
  "1 \<le> L \<Longrightarrow> MakenGrams_only al (int L) = product_lists (replicate L (sort al))"
  by (simp add: MakenGrams_only_def join_columns_product)

lemma set_product_replicate:
  "set (product_lists (replicate L xs)) = {ys. length ys = L \<and> set ys \<subseteq> set xs}"
proof (induction L)
  case 0
  show ?case by auto
next
  case (Suc L)
  show ?case
  proof (rule set_eqI)
    fix ys
    show "ys \<in> set (product_lists (replicate (Suc L) xs)) \<longleftrightarrow>
          ys \<in> {ys. length ys = Suc L \<and> set ys \<subseteq> set xs}"
      using Suc.IH by (cases ys) auto
  qed
qed

lemma distinct_product_replicate:
  "distinct xs \<Longrightarrow> distinct (product_lists (replicate L xs))"
  by (rule distinct_product_lists) simp

lemma sorted_Cons_blocks:
  fixes xs :: "'a::linorder list"
  assumes "sorted rows" and "sorted xs" and "distinct xs"
  shows "sorted (concat (map (\<lambda>a. map ((#) a) rows) xs))"
  using assms(2,3)
proof (induction xs)
  case Nil
  show ?case by simp
next
  case (Cons a xs)
  have 1: "sorted (map ((#) a) rows)"
    using assms(1) by (induction rows) auto
  have 2: "sorted (concat (map (\<lambda>a. map ((#) a) rows) xs))"
    using Cons by simp
  have 3: "u \<le> v" if "u \<in> set (map ((#) a) rows)"
      and "v \<in> set (concat (map (\<lambda>a. map ((#) a) rows) xs))" for u v
  proof -
    from that obtain r b r' where "u = a # r" "v = b # r'" "b \<in> set xs" by auto
    moreover have "a \<le> b" and "a \<noteq> b" using Cons.prems \<open>b \<in> set xs\<close> by auto
    then have "a < b" by simp
    ultimately show ?thesis by simp
  qed
  show ?case using 1 2 3 by (simp add: sorted_append)
qed

lemma sorted_product_replicate:
  fixes xs :: "'a::linorder list"
  shows "sorted xs \<Longrightarrow> distinct xs \<Longrightarrow> sorted (product_lists (replicate L xs))"
  by (induction L) (simp_all add: sorted_Cons_blocks)

lemma prefixes_product_replicate:
  assumes "1 \<le> L"
  shows "take L ` set (product_lists (replicate (Suc L) xs)) =
         set (product_lists (replicate L xs))"
proof (rule set_eqI)
  fix ys
  show "ys \<in> take L ` set (product_lists (replicate (Suc L) xs)) \<longleftrightarrow>
        ys \<in> set (product_lists (replicate L xs))"
  proof
    assume "ys \<in> take L ` set (product_lists (replicate (Suc L) xs))"
    then obtain zs where zs: "zs \<in> set (product_lists (replicate (Suc L) xs))"
      and y: "ys = take L zs" by blast
    from zs have "length zs = Suc L" and "set zs \<subseteq> set xs"
      unfolding set_product_replicate by blast+
    then have "length ys = L" and "set ys \<subseteq> set xs"
      using y by (auto dest: in_set_takeD)
    then show "ys \<in> set (product_lists (replicate L xs))"
      unfolding set_product_replicate by blast
  next
    assume "ys \<in> set (product_lists (replicate L xs))"
    then have ys: "length ys = L" "set ys \<subseteq> set xs"
      unfolding set_product_replicate by blast+
    with assms obtain y where "y \<in> set ys" by (cases ys) auto
    with ys have "length (ys @ [y]) = Suc L" and "set (ys @ [y]) \<subseteq> set xs" by auto
    then have "ys @ [y] \<in> set (product_lists (replicate (Suc L) xs))"
      unfolding set_product_replicate by blast
    moreover have "take L (ys @ [y]) = ys" using ys by simp
    ultimately show "ys \<in> take L ` set (product_lists (replicate (Suc L) xs))"
      by (metis imageI)
  qed
qed

lemma index_of_less_iff:
  fixes al :: "'a::linorder list"
  assumes "sorted al" and "distinct al" and "x \<in> set al" and "y \<in> set al"
  shows "index_of al x < index_of al y \<longleftrightarrow> x < y"
  using assms
proof (induction al)
  case Nil
  then show ?case by simp
next
  case (Cons a al)
  from Cons.prems have lo: "\<And>z. z \<in> set al \<Longrightarrow> a \<le> z \<and> a \<noteq> z" by auto
  show ?case
  proof (cases "x = a")
    case True
    show ?thesis
    proof (cases "y = a")
      case True
      with \<open>x = a\<close> show ?thesis by simp
    next
      case False
      with Cons.prems have "y \<in> set al" by simp
      with lo have "a < y" by (simp add: order.strict_iff_order)
      with \<open>x = a\<close> False show ?thesis by simp
    qed
  next
    case False
    with Cons.prems have xa: "x \<in> set al" by simp
    show ?thesis
    proof (cases "y = a")
      case True
      from lo[OF xa] have "\<not> x < a" by (simp add: not_less)
      with True False show ?thesis by simp
    next
      case yf: False
      with Cons.prems have "y \<in> set al" by simp
      with Cons.IH xa Cons.prems have "index_of al x < index_of al y \<longleftrightarrow> x < y" by simp
      with False yf show ?thesis by simp
    qed
  qed
qed

lemma index_of_eq_iff:
  "x \<in> set al \<Longrightarrow> y \<in> set al \<Longrightarrow> index_of al x = index_of al y \<longleftrightarrow> x = y"
  by (induction al) auto

lemma alpha_le_iff:
  fixes al :: "'a::linorder list"
  assumes "sorted al" and "distinct al"
  shows "set xs \<subseteq> set al \<Longrightarrow> set ys \<subseteq> set al \<Longrightarrow> alpha_le al xs ys \<longleftrightarrow> xs \<le> ys"
proof (induction xs arbitrary: ys)
  case Nil
  show ?case by simp
next
  case (Cons x xs)
  show ?case
  proof (cases ys)
    case Nil
    then show ?thesis by simp
  next
    case (Cons y ys')
    with Cons.prems have m: "x \<in> set al" "y \<in> set al" "set xs \<subseteq> set al" "set ys' \<subseteq> set al"
      by auto
    have a: "index_of al x < index_of al y \<longleftrightarrow> x < y"
      by (rule index_of_less_iff[OF assms m(1,2)])
    have b: "index_of al x = index_of al y \<longleftrightarrow> x = y"
      by (rule index_of_eq_iff[OF m(1,2)])
    have c: "alpha_le al xs ys' \<longleftrightarrow> xs \<le> ys'"
      by (rule Cons.IH[OF m(3,4)])
    show ?thesis unfolding Cons alpha_le.simps a b c by simp
  qed
qed

lemma sorted_in_alphabet_order_iff:
  fixes al :: "'a::linorder list"
  assumes "sorted al" and "distinct al" and "\<forall>x\<in>set xs. set x \<subseteq> set al"
  shows "sorted_in_alphabet_order al xs \<longleftrightarrow> sorted xs"
proof -
  have "sorted_wrt (alpha_le al) xs \<longleftrightarrow> sorted_wrt (\<le>) xs"
    using assms(3)
  proof (induction xs)
    case Nil
    show ?case by simp
  next
    case (Cons x xs)
    have "alpha_le al x y \<longleftrightarrow> x \<le> y" if "y \<in> set xs" for y
      using alpha_le_iff[OF assms(1,2), of x y] Cons.prems that by simp
    moreover have "sorted_wrt (alpha_le al) xs \<longleftrightarrow> sorted_wrt (\<le>) xs"
      using Cons by simp
    ultimately show ?case by simp
  qed
  then show ?thesis by (simp add: sorted_in_alphabet_order_def)
qed

lemma sorted_in_alphabet_order_singletons:
  "distinct al \<Longrightarrow> sorted_in_alphabet_order bl (map (\<lambda>c. [c]) al) \<longleftrightarrow>
     sorted_wrt (\<lambda>x y. index_of bl x \<le> index_of bl y) al"
  unfolding sorted_in_alphabet_order_def
  by (induction al) (auto simp: sorted_wrt_map le_less)

lemma index_of_suffix_sorted:
  "distinct (pre @ al) \<Longrightarrow> sorted_wrt (\<lambda>x y. index_of (pre @ al) x \<le> index_of (pre @ al) y) al"
proof (induction al arbitrary: pre)
  case Nil
  show ?case by simp
next
  case (Cons a al)
  have ia: "index_of (pre @ a # al) a = length pre"
    using Cons.prems by (induction pre) auto
  have "length pre \<le> index_of (pre @ a # al) y" if "y \<in> set al" for y
    using Cons.prems that by (induction pre) auto
  moreover have "sorted_wrt (\<lambda>x y. index_of ((pre @ [a]) @ al) x \<le> index_of ((pre @ [a]) @ al) y) al"
    using Cons.prems by (intro Cons.IH) simp
  ultimately show ?case using ia by simp
qed

lemma alphabet_sorted_in_own_order:
  "distinct al \<Longrightarrow> sorted_in_alphabet_order al (map (\<lambda>c. [c]) al)"
  using index_of_suffix_sorted[of "[]" al]
  by (simp add: sorted_in_alphabet_order_singletons)

lemma MakenGrams_all_0: "MakenGrams_all al mx ! 0 = map (\<lambda>c. [c]) al"
  by (simp add: MakenGrams_all_eq)

lemma ngram_list_cases:
  assumes "1 \<le> L" and "int L \<le> mx"
  shows "set (MakenGrams_all al mx ! (L - 1)) = {s. length s = L \<and> set s \<subseteq> set al}"
proof (cases "L = 1")
  case True
  have "set (map (\<lambda>c. [c]) al) = {s. length s = 1 \<and> set s \<subseteq> set al}"
  proof (rule set_eqI)
    fix s :: string
    show "s \<in> set (map (\<lambda>c. [c]) al) \<longleftrightarrow> s \<in> {s. length s = 1 \<and> set s \<subseteq> set al}"
      by (cases s) auto
  qed
  with True show ?thesis by (simp add: MakenGrams_all_0)
next
  case False
  with MakenGrams_all_nth[OF assms, of al] show ?thesis
    by (simp add: set_product_replicate)
qed

lemma ngram_columns_0 [simp]: "ngram_columns al 0 = []"
  by (simp add: ngram_columns_def)

lemma MakenGrams_only_nonpos: "mx \<le> 0 \<Longrightarrow> MakenGrams_only al mx = []"
  by (simp add: MakenGrams_only_def join_columns_def)

lemma MakenGrams_all_nonpos:
  "mx \<le> 0 \<Longrightarrow> MakenGrams_all al mx = [map (\<lambda>c. [c]) al, []]"
  by (simp add: MakenGrams_all_def join_columns_def)

subsection \<open>The rows of a PTP matrix\<close>

lemma zip_star_nth:
  "r < length (zip_star cols) \<Longrightarrow>
     zip_star cols ! r = map (\<lambda>c. c ! r) cols \<and> (\<forall>c\<in>set cols. r < length c)"
proof (induction cols arbitrary: r rule: zip_star.induct)
  case (1 cols)
  show ?case
  proof (cases "cols = [] \<or> [] \<in> set cols")
    case True
    with "1.prems" show ?thesis by (simp add: zip_star.simps)
  next
    case False
    then have eq: "zip_star cols = map hd cols # zip_star (map tl cols)"
      by (simp add: zip_star.simps)
    show ?thesis
    proof (cases r)
      case 0
      have "\<And>x. x \<in> set cols \<Longrightarrow> hd x = x ! 0 \<and> 0 < length x"
        using False by (metis hd_conv_nth length_greater_0_conv)
      with 0 False eq show ?thesis
        by auto
    next
      case (Suc r')
      with "1.prems" eq have "r' < length (zip_star (map tl cols))" by simp
      from "1.IH"[OF False this] Suc eq False show ?thesis
        by (auto simp: nth_tl)
    qed
  qed
qed

lemma sum_list_map_nth:
  "sum_list (map f xs) = (\<Sum>j<length xs. f (xs ! j))"
  by (simp add: sum_list_sum_nth atLeast0LessThan)

lemma tabulate_length [simp]: "length (tabulate al f i j P) = length P"
  by (induction al arbitrary: j P) (auto split: list.splits)


lemma finish_PTP_parts:
  assumes "length P = S"
  defines "tots \<equiv> map sum_list (zip_star P)"
  shows "finish_PTP P ! S = tots"
    and "j < S \<Longrightarrow> finish_PTP P ! j = P ! j"
    and "j < S \<Longrightarrow> finish_PTP P ! (S + 1 + j) =
           map (\<lambda>(i, t). if t \<noteq> 0 then i / t else 0) (zip (P ! j) tots)"
    and "length (finish_PTP P) = 2 * S + 1"
  using assms by (auto simp: finish_PTP_def Let_def nth_append)


lemma BuildPTP_InrD:
  assumes "BuildPTP self ngs red = Inr (P, fnd)"
  obtains searchMe inds P' where "ngs \<noteq> []"
    and "case red of None \<Rightarrow> searchMe = ngs \<and> inds = [0..<length ngs]
                   | Some rd \<Rightarrow> searchMe = rd \<and> index_all ngs rd = Inr inds"
    and "BuildPTP_loop self (length (hd ngs)) (zip inds searchMe)
           (replicate (n_s self) (replicate (length ngs) 0), []) = (P', fnd)"
    and "P = finish_PTP P'"
  using assms
  by (auto simp: BuildPTP_def Let_def split: list.splits sum.splits option.splits prod.splits)



subsection \<open>The substring search\<close>

lemma poly_val_snoc: "poly_val (s @ [c]) x = poly_val s x * x + ord c"
  by (simp add: poly_val_def)

lemma PolyHash_snoc: "PolyHash (s @ [c]) p x = (PolyHash s p x * x + ord c) mod p"
  by (simp add: PolyHash_def)

lemma PolyHash_poly_val: "PolyHash s p x = poly_val s x mod p"
proof (induction s rule: rev_induct)
  case Nil
  show ?case by (simp add: PolyHash_def poly_val_def)
next
  case (snoc c s)
  show ?case
    unfolding PolyHash_snoc poly_val_snoc snoc.IH
    by (intro mod_add_cong mod_mult_cong) simp_all
qed

lemma poly_val_Cons: "poly_val (c # s) x = ord c * x ^ length s + poly_val s x"
proof (induction s rule: rev_induct)
  case Nil
  show ?case by (simp add: poly_val_def)
next
  case (snoc d s)
  have "poly_val (c # s @ [d]) x = poly_val ((c # s) @ [d]) x" by simp
  also have "\<dots> = poly_val (c # s) x * x + ord d" by (rule poly_val_snoc)
  finally show ?case
    by (simp add: snoc.IH poly_val_snoc algebra_simps)
qed

lemma roll_correct:
  assumes "h = PolyHash (c # w) p x" and "xL = x ^ length w mod p"
  shows "roll p x xL h c d = PolyHash (w @ [d]) p x"
proof -
  have "roll p x xL h c d =
        ((poly_val (c # w) x mod p - ord c * (x ^ length w mod p)) * x + ord d) mod p"
    using assms by (simp add: roll_def PolyHash_poly_val)
  also have "\<dots> = ((poly_val (c # w) x - ord c * x ^ length w) * x + ord d) mod p"
    by (intro mod_add_cong mod_mult_cong mod_diff_cong) simp_all
  also have "\<dots> = (poly_val w x * x + ord d) mod p"
    by (simp add: poly_val_Cons)
  also have "\<dots> = PolyHash (w @ [d]) p x"
    by (simp add: PolyHash_poly_val poly_val_snoc)
  finally show ?thesis .
qed

lemma AreEqual_iff: "AreEqual tx pat \<longleftrightarrow> take (length pat) tx = pat"
  by (induction tx pat rule: AreEqual.induct) auto

lemma window_Cons:
  assumes "i < length tx" and "0 < L"
  shows "take L (drop i tx) = tx ! i # take (L - 1) (drop (Suc i) tx)"
proof -
  from assms(1) have "drop i tx = tx ! i # drop (Suc i) tx"
    by (simp add: Cons_nth_drop_Suc)
  with assms(2) show ?thesis by (cases L) simp_all
qed

lemma window_snoc:
  assumes "i + L < length tx" and "0 < L"
  shows "take L (drop (Suc i) tx) = take (L - 1) (drop (Suc i) tx) @ [tx ! (i + L)]"
proof -
  from assms obtain L' where L: "L = Suc L'" by (cases L) auto
  have "L' < length (drop (Suc i) tx)" using assms L by simp
  then have "take (Suc L') (drop (Suc i) tx) =
      take L' (drop (Suc i) tx) @ [drop (Suc i) tx ! L']"
    by (rule take_Suc_conv_app_nth)
  moreover have "drop (Suc i) tx ! L' = tx ! (i + L)" using assms L by simp
  ultimately show ?thesis using L by simp
qed

lemma hash_scan_correct:
  assumes "L = length pat" and "0 < L" and "i + k + L = length tx"
    and "h = PolyHash (take L (drop i tx)) p x"
    and "xL = x ^ (L - 1) mod p" and "hp = PolyHash pat p x"
  shows "hash_scan tx pat p x xL hp i h k =
         filter (\<lambda>j. take L (drop j tx) = pat) [i..<i + k + 1]"
  using assms
proof (induction k arbitrary: i h)
  case 0
  then show ?case by (auto simp: AreEqual_iff)
next
  case (Suc k)
  have il: "i < length tx" and iL: "i + L < length tx" using Suc.prems by auto
  let ?w = "take (L - 1) (drop (Suc i) tx)"
  have lw: "length ?w = L - 1" using iL by simp
  have h: "h = PolyHash (tx ! i # ?w) p x"
    using Suc.prems window_Cons[OF il \<open>0 < L\<close>] by simp
  have "roll p x xL h (tx ! i) (tx ! (i + L)) = PolyHash (?w @ [tx ! (i + L)]) p x"
    by (rule roll_correct[OF h]) (simp only: lw Suc.prems(5))
  then have r: "roll p x xL h (tx ! i) (tx ! (i + length pat)) =
      PolyHash (take L (drop (Suc i) tx)) p x"
    using window_snoc[OF iL \<open>0 < L\<close>] Suc.prems by simp
  have IH: "hash_scan tx pat p x xL hp (Suc i)
        (roll p x xL h (tx ! i) (tx ! (i + length pat))) k =
      filter (\<lambda>j. take L (drop j tx) = pat) [Suc i..<Suc i + k + 1]"
    by (rule Suc.IH) (use Suc.prems r in auto)
  have up: "[i..<i + Suc k + 1] = i # [Suc i..<Suc i + k + 1]"
    by (simp add: upt_conv_Cons)
  show ?case
    unfolding hash_scan.simps IH up using Suc.prems(1,4,6)
    by (auto simp: AreEqual_iff)
qed

lemma filter_upt_cut:
  assumes "a \<le> b" and "\<And>j. j < a \<Longrightarrow> P j = Q j" and "\<And>j. a \<le> j \<Longrightarrow> j < b \<Longrightarrow> \<not> P j"
  shows "filter P [0..<b] = filter Q [0..<a]"
proof -
  from assms(1) have "[0..<b] = [0..<a] @ [a..<b]"
    by (metis le_add_diff_inverse upt_add_eq_append zero_le)
  moreover have "filter P [a..<b] = []" using assms(3) by (auto simp: filter_empty_conv)
  moreover have "filter P [0..<a] = filter Q [0..<a]" using assms(2) by (intro filter_cong) auto
  ultimately show ?thesis by simp
qed

lemma HashSearch_exact:
  assumes "pat \<noteq> []"
  shows "HashSearch tx pat p x =
    filter (\<lambda>i. i + length pat \<le> length tx \<and> take (length pat) (drop i tx) = pat)
      [0..<Suc (length tx)]"
proof (cases "length pat > length tx")
  case True
  have "\<And>i. \<not> (i + length pat \<le> length tx)" using True by simp
  then show ?thesis using True by (simp add: HashSearch_def Let_def)
next
  case False
  let ?L = "length pat" and ?N = "length tx"
  from assms have L0: "0 < ?L" by simp
  have "HashSearch tx pat p x =
      hash_scan tx pat p x (x ^ (?L - 1) mod p) (PolyHash pat p x) 0
        (PolyHash (take ?L tx) p x) (?N - ?L)"
    using False L0 by (simp add: HashSearch_def Let_def)
  also have "\<dots> = filter (\<lambda>j. take ?L (drop j tx) = pat) [0..<0 + (?N - ?L) + 1]"
    by (rule hash_scan_correct) (use False L0 in auto)
  also have "\<dots> = filter (\<lambda>i. i + ?L \<le> ?N \<and> take ?L (drop i tx) = pat) [0..<Suc ?N]"
    by (rule filter_upt_cut[symmetric]) (use False in auto)
  finally show ?thesis .
qed


subsection \<open>The loop of BuildPTPs\<close>

lemma BuildPTPs_loop_inv:
  assumes "BuildPTPs_loop self ngramS poss [k..<mx] cur st = Inr (cur', st')"
    and "k \<le> mx" and "length (sp_si st) = mx" and "length (sp_obs st) = mx"
    and "length (acc_PTPs st) = k"
    and "\<forall>j<k. t_np self \<le> sp_si st ! j \<and> si_ok poss st j"
    and "cur = (if k = 0 then None else Some (k - 1))"
  shows "length (sp_si st') = mx \<and> length (sp_obs st') = mx \<and>
     length (acc_PTPs st') \<le> mx \<and>
     (\<forall>j<length (acc_PTPs st').
        t_np self \<le> sp_si st' ! j \<and> si_ok poss st' j) \<and>
     (case cur' of
        None \<Rightarrow> mx = 0 \<and> acc_PTPs st' = []
      | Some i \<Rightarrow> i < mx \<and> si_ok poss st' i \<and>
          (if t_np self \<le> sp_si st' ! i
           then length (acc_PTPs st') = mx \<and> i + 1 = mx
           else length (acc_PTPs st') = i))"
  using assms
proof (induction "mx - k" arbitrary: k cur st)
  case 0
  then have k: "k = mx" by simp
  with "0.prems" have res: "cur' = cur" "st' = st" by simp_all
  show ?case
  proof (cases "mx = 0")
    case True
    with "0.prems" k res show ?thesis by simp
  next
    case False
    then have "mx - 1 < k" using k by simp
    with "0.prems"(6) have "t_np self \<le> sp_si st ! (mx - 1)"
      and "si_ok poss st (mx - 1)" by blast+
    with "0.prems" k res False show ?thesis by auto
  qed
next
  case (Suc d)
  then have km: "k < mx" by simp
  then have up: "[k..<mx] = k # [Suc k..<mx]" by (simp add: upt_conv_Cons)
  define obs :: rat where "obs = of_nat (length (np_unique (map butlast (fnd_ip1 st))))"
  define st2 where "st2 = st\<lparr>sp_obs := (sp_obs st)[k := obs], sp_si := (sp_si st)[k := obs / poss ! k]\<rparr>"
  have st2: "length (sp_si st2) = mx" "length (sp_obs st2) = mx" "acc_PTPs st2 = acc_PTPs st"
    "sp_si st2 ! k = obs / poss ! k" "si_ok poss st2 k"
    "\<And>j. j < k \<Longrightarrow> sp_si st2 ! j = sp_si st ! j \<and> si_ok poss st2 j = si_ok poss st j"
    using Suc.prems km by (auto simp: st2_def si_ok_def)
  have st3: "\<And>j f P. si_ok poss (st2\<lparr>fnd_ip1 := f, acc_PTPs := P\<rparr>) j = si_ok poss st2 j"
    by (simp add: si_ok_def)
  from Suc.prems(1) have nz: "poss ! k \<noteq> 0"
    unfolding up by (auto simp: Let_def split: if_splits)
  show ?case
  proof (cases "sp_si st2 ! k < t_np self")
    case True
    with Suc.prems(1) nz have res: "cur' = Some k" "st' = st2"
      unfolding up by (auto simp: Let_def st2_def obs_def)
    show ?thesis
      using res st2 True Suc.prems km by auto
  next
    case False
    with Suc.prems(1) nz obtain ngs P fnd where
      rec: "BuildPTPs_loop self ngramS poss [Suc k..<mx] (Some k)
              (st2\<lparr>fnd_ip1 := fnd, acc_PTPs := acc_PTPs st2 @ [P]\<rparr>) = Inr (cur', st')"
      unfolding up
      by (auto simp: Let_def st2_def obs_def and_then_def split: sum.splits prod.splits)
    let ?st3 = "st2\<lparr>fnd_ip1 := fnd, acc_PTPs := acc_PTPs st2 @ [P]\<rparr>"
    have d: "d = mx - Suc k" using Suc.hyps(2) by simp
    have pre: "\<forall>j<Suc k. t_np self \<le> sp_si ?st3 ! j \<and> si_ok poss ?st3 j"
    proof (intro allI impI)
      fix j assume "j < Suc k"
      then consider "j < k" | "j = k" by linarith
      then show "t_np self \<le> sp_si ?st3 ! j \<and> si_ok poss ?st3 j"
      proof cases
        case 1
        with st2(6)[OF 1] Suc.prems(6) show ?thesis by (simp add: st3)
      next
        case 2
        with st2(4,5) False show ?thesis by (simp add: st3)
      qed
    qed
    show ?thesis
      by (rule Suc.hyps(1)[OF d rec]) (use km st2 Suc.prems pre in auto)
  qed
qed

lemma and_then_Inr: "and_then r f = Inr v \<longleftrightarrow> (\<exists>x. r = Inr x \<and> f x = Inr v)"
  by (cases r) (simp_all add: and_then_def)

lemma BuildPTPs_run_InrD:
  assumes "BuildPTPs_run self = Inr (i, st)"
  obtains c where
    "BuildPTPs_loop self (MakenGrams_all (alpha self) (maxn_p self))
       (map (\<lambda>i. of_nat (n_s self ^ i)) [1..<nat (maxn_p self) + 1]) [0..<nat (maxn_p self)] None
       \<lparr>sp_obs = replicate (nat (maxn_p self)) 0, sp_si = replicate (nat (maxn_p self)) 0,
        fnd_ip1 = map (\<lambda>c. [c]) (np_unique (sequence self)), acc_PTPs = []\<rparr> = Inr (Some c, st)"
    and "i = c + (if t_np self \<le> sp_si st ! c then 1 else 0)"
proof -
  from assms obtain x where
    a: "BuildPTPs_loop self (MakenGrams_all (alpha self) (maxn_p self))
       (map (\<lambda>i. of_nat (n_s self ^ i)) [1..<nat (maxn_p self) + 1]) [0..<nat (maxn_p self)] None
       \<lparr>sp_obs = replicate (nat (maxn_p self)) 0, sp_si = replicate (nat (maxn_p self)) 0,
        fnd_ip1 = map (\<lambda>c. [c]) (np_unique (sequence self)), acc_PTPs = []\<rparr> = Inr x"
    and b: "(case x of (cur, st) \<Rightarrow>
           case cur of
             None \<Rightarrow> Inl NameError
           | Some i \<Rightarrow> Inr (i + (if sp_si st ! i \<ge> t_np self then 1 else 0), st)) = Inr (i, st)"
    unfolding BuildPTPs_run_def Let_def and_then_Inr by blast
  obtain cur st1 where x: "x = (cur, st1)" by (cases x)
  from b x obtain c where "cur = Some c" "st1 = st"
    "i = c + (if t_np self \<le> sp_si st ! c then 1 else 0)"
    by (cases cur) auto
  with a x that show ?thesis by simp
qed


lemma BuildPTPs_run_props:
  assumes "BuildPTPs_run self = Inr (i, st)"
  shows "i = length (acc_PTPs st)" and "i \<le> nat (maxn_p self)"
    and "length (sp_si st) = nat (maxn_p self)" and "length (sp_obs st) = nat (maxn_p self)"
    and "\<forall>j<i. t_np self \<le> sp_si st ! j"
    and "i < nat (maxn_p self) \<longrightarrow> sp_si st ! i < t_np self"
    and "\<forall>j<nat (maxn_p self). j \<le> i \<longrightarrow>
           sp_si st ! j = sp_obs st ! j / of_nat (n_s self ^ (j + 1))"
proof -
  define mx where "mx = nat (maxn_p self)"
  define poss :: "rat list" where "poss = map (\<lambda>i. of_nat (n_s self ^ i)) [1..<mx + 1]"
  define st0 where "st0 = \<lparr>sp_obs = replicate mx (0::rat), sp_si = replicate mx (0::rat),
      fnd_ip1 = map (\<lambda>c. [c]) (np_unique (sequence self)), acc_PTPs = ([]::PTP list)\<rparr>"
  from assms obtain c where
    loop0: "BuildPTPs_loop self (MakenGrams_all (alpha self) (maxn_p self))
       (map (\<lambda>i. of_nat (n_s self ^ i)) [1..<nat (maxn_p self) + 1]) [0..<nat (maxn_p self)] None
       \<lparr>sp_obs = replicate (nat (maxn_p self)) 0, sp_si = replicate (nat (maxn_p self)) 0,
        fnd_ip1 = map (\<lambda>c. [c]) (np_unique (sequence self)), acc_PTPs = []\<rparr> = Inr (Some c, st)"
    and i: "i = c + (if t_np self \<le> sp_si st ! c then 1 else 0)"
    by (rule BuildPTPs_run_InrD)
  have loop: "BuildPTPs_loop self (MakenGrams_all (alpha self) (maxn_p self)) poss [0..<mx] None st0
             = Inr (Some c, st)"
    unfolding mx_def poss_def st0_def by (rule loop0)
  have pre: "0 \<le> mx" "length (sp_si st0) = mx" "length (sp_obs st0) = mx"
    "length (acc_PTPs st0) = 0"
    "\<forall>j<0. t_np self \<le> sp_si st0 ! j \<and> si_ok poss st0 j"
    "None = (if (0::nat) = 0 then None else Some (0 - 1))"
    by (simp_all add: st0_def)
  note inv0 = BuildPTPs_loop_inv[OF loop pre]
  from inv0 have l1: "length (sp_si st) = mx" and l2: "length (sp_obs st) = mx"
    and l3: "length (acc_PTPs st) \<le> mx"
    and pass: "\<forall>j<length (acc_PTPs st). t_np self \<le> sp_si st ! j \<and> si_ok poss st j"
    by blast+
  from inv0 have "case Some c of
        None \<Rightarrow> mx = 0 \<and> acc_PTPs st = []
      | Some i \<Rightarrow> i < mx \<and> si_ok poss st i \<and>
          (if t_np self \<le> sp_si st ! i
           then length (acc_PTPs st) = mx \<and> i + 1 = mx
           else length (acc_PTPs st) = i)"
    by blast
  then have "c < mx \<and> si_ok poss st c \<and>
          (if t_np self \<le> sp_si st ! c
           then length (acc_PTPs st) = mx \<and> c + 1 = mx
           else length (acc_PTPs st) = c)"
    unfolding option.case .
  note e = this
  have c: "c < mx" using e by (rule conjunct1)
  have okc: "si_ok poss st c" using e[THEN conjunct2] by (rule conjunct1)
  have fin2: "if t_np self \<le> sp_si st ! c
           then length (acc_PTPs st) = mx \<and> c + 1 = mx
           else length (acc_PTPs st) = c"
    using e[THEN conjunct2] by (rule conjunct2)
  have len: "length (acc_PTPs st) = i"
    using fin2 i by (cases "t_np self \<le> sp_si st ! c") simp_all
  have stop: "sp_si st ! i < t_np self \<and> i = c" if "i < mx"
    using fin2 i that len by (cases "t_np self \<le> sp_si st ! c") simp_all
  from l1 l2 show "length (sp_si st) = nat (maxn_p self)" "length (sp_obs st) = nat (maxn_p self)"
    by (simp_all add: mx_def)
  from len show "i = length (acc_PTPs st)" by simp
  from l3 len show "i \<le> nat (maxn_p self)" by (simp add: mx_def)
  from pass len show "\<forall>j<i. t_np self \<le> sp_si st ! j" by simp
  from stop show "i < nat (maxn_p self) \<longrightarrow> sp_si st ! i < t_np self"
    by (simp add: mx_def)
  have pj: "poss ! j = of_nat (n_s self ^ (j + 1))" if "j < mx" for j
  proof -
    have "j < length [1..<mx + 1]" using that by simp
    then have "poss ! j = of_nat (n_s self ^ ([1..<mx + 1] ! j))"
      unfolding poss_def by (rule nth_map)
    also have "[1..<mx + 1] ! j = 1 + j" using that by (intro nth_upt) simp
    finally show ?thesis by (simp add: add.commute)
  qed
  show "\<forall>j<nat (maxn_p self). j \<le> i \<longrightarrow>
           sp_si st ! j = sp_obs st ! j / of_nat (n_s self ^ (j + 1))"
  proof (intro allI impI)
    fix j assume j: "j < nat (maxn_p self)" "j \<le> i"
    have "si_ok poss st j"
    proof (cases "j < i")
      case True
      with pass len show ?thesis by simp
    next
      case False
      with j have ji: "j = i" by simp
      with j have "i < mx" by (simp add: mx_def)
      from stop[OF this] ji okc show ?thesis by simp
    qed
    moreover have "j < mx" using j by (simp add: mx_def)
    ultimately show "sp_si st ! j = sp_obs st ! j / of_nat (n_s self ^ (j + 1))"
      using pj[of j] by (simp add: si_ok_def)
  qed
qed

lemma BuildPTPs_InrD:
  assumes "BuildPTPs self = Inr m"
  obtains st where "BuildPTPs_run self = Inr (n_p m, st)" and "PTPs m = acc_PTPs st"
    and "sparsities m = map (take (n_p m))
           [sp_obs st, map (\<lambda>i. of_nat (n_s self ^ i)) [1..<nat (maxn_p self) + 1], sp_si st]"
    and "ngrams m = take (n_p m) (MakenGrams_all (alpha self) (maxn_p self))"
    and "alpha m = alpha self" and "sequence m = sequence self"
proof (cases "BuildPTPs_run self")
  case (Inl e)
  with assms show ?thesis by (simp add: BuildPTPs_def and_then_def)
next
  case (Inr x)
  obtain i st where x: "x = (i, st)" by (cases x)
  from assms Inr x have m: "m = self\<lparr>n_p := i, PTPs := acc_PTPs st,
                    ngrams := take i (MakenGrams_all (alpha self) (maxn_p self)),
                    sparsities := map (take i)
                      [sp_obs st, map (\<lambda>i. of_nat (n_s self ^ i)) [1..<nat (maxn_p self) + 1],
                       sp_si st],
                    PTPset := True\<rparr>"
    by (simp add: BuildPTPs_def and_then_def Let_def)
  show ?thesis
    by (rule that[of st]) (simp_all add: m Inr x)
qed

lemma ex3_run: "BuildPTPs_run ex3 = Inr (2, ex3_state)"
  by code_simp

lemma ex3_build: "BuildPTPs ex3 = Inr ex3_built"
  by code_simp

subsection \<open>The loop of BuildPTP\<close>

lemma mask_zip_distinct:
  "distinct u \<Longrightarrow>
   map snd (filter (\<lambda>(x, c). x = a) (zip u (map f u))) = (if a \<in> set u then [f a] else [])"
  by (induction u) auto

lemma set_np_unique [simp]: "set (np_unique xs) = set xs"
  by (simp add: np_unique_def)

lemma distinct_np_unique [simp]: "distinct (np_unique xs)"
  by (simp add: np_unique_def)

lemma mask_counts_unique:
  "mask_counts (np_unique_counts chars) a =
     (if a \<in> set chars then [count_list chars a] else [])"
  using mask_zip_distinct[of "np_unique chars" a "count_list chars"]
  by (simp add: mask_counts_def np_unique_counts_def Let_def)

lemma fst_np_unique_counts [simp]: "fst (np_unique_counts chars) = np_unique chars"
  by (simp add: np_unique_counts_def Let_def)

lemma np_unique_Nil [simp]: "np_unique [] = []"
  by (simp add: np_unique_def)

lemma np_unique_Nil_iff [simp]: "np_unique xs = [] \<longleftrightarrow> xs = []"
  by (metis set_np_unique set_empty)

lemma BuildPTP_loop_fnd:
  "snd (BuildPTP_loop self np cs (P, fnd)) =
   fnd @ concat (map (\<lambda>(i, g). map (\<lambda>a. g @ [a]) (np_unique (followers self np g))) cs)"
proof (induction cs arbitrary: P fnd)
  case Nil
  show ?case by simp
next
  case (Cons ig cs)
  obtain i g where ig: "ig = (i, g)" by (cases ig)
  show ?case
  proof (cases "followers self np g = []")
    case True
    then show ?thesis using Cons.IH ig by (simp add: Let_def)
  next
    case False
    then show ?thesis using Cons.IH ig by (simp add: Let_def)
  qed
qed

lemma tabulate_step:
  "tabulate (a # rest) (np_unique_counts chars) i j0 P =
   tabulate rest (np_unique_counts chars) i (Suc j0)
     (if a \<in> set chars then P[j0 := (P ! j0)[i := of_nat (count_list chars a)]] else P)"
  by (simp add: mask_counts_unique)

lemma length_update_row [simp]:
  "length (P[j0 := (P ! j0)[i := v]] ! j) = length (P ! j)"
  by (cases "j0 < length P") (auto simp: nth_list_update list_update_beyond not_less)

lemma tabulate_rows:
  "j < length P \<Longrightarrow> length (tabulate al (np_unique_counts chars) i j0 P ! j) = length (P ! j)"
proof (induction al arbitrary: j0 P)
  case Nil
  show ?case by simp
next
  case (Cons a rest)
  show ?case
    unfolding tabulate_step using Cons.prems
    by (subst Cons.IH) (auto simp: nth_list_update)
qed

lemma tabulate_nth:
  assumes "j0 + length al \<le> length P" and "\<forall>j<length P. i < length (P ! j)"
    and "j < length P"
  shows "tabulate al (np_unique_counts chars) i j0 P ! j ! i' =
     (if i' = i \<and> j0 \<le> j \<and> j < j0 + length al \<and> al ! (j - j0) \<in> set chars
      then of_nat (count_list chars (al ! (j - j0))) else P ! j ! i')"
  using assms
proof (induction al arbitrary: j0 P)
  case Nil
  show ?case by simp
next
  case (Cons a rest)
  let ?P1 = "if a \<in> set chars then P[j0 := (P ! j0)[i := of_nat (count_list chars a)]] else P"
  have len: "length ?P1 = length P" by simp
  have rows: "\<forall>j<length ?P1. i < length (?P1 ! j)"
    using Cons.prems(2) by (auto simp: nth_list_update)
  have IH: "tabulate rest (np_unique_counts chars) i (Suc j0) ?P1 ! j ! i' =
     (if i' = i \<and> Suc j0 \<le> j \<and> j < Suc j0 + length rest \<and> rest ! (j - Suc j0) \<in> set chars
      then of_nat (count_list chars (rest ! (j - Suc j0))) else ?P1 ! j ! i')"
    by (rule Cons.IH) (use Cons.prems len rows in auto)
  have P1: "?P1 ! j ! i' =
     (if a \<in> set chars \<and> j = j0 \<and> i' = i then of_nat (count_list chars a) else P ! j ! i')"
    using Cons.prems by (auto simp: nth_list_update)
  show ?case
  proof (cases "j = j0")
    case True
    then show ?thesis unfolding tabulate_step IH P1 by simp
  next
    case False
    show ?thesis
    proof (cases "j0 < j")
      case True
      then have "(a # rest) ! (j - j0) = rest ! (j - Suc j0)"
        by (simp add: nth_Cons')
      moreover have "j0 \<le> j \<longleftrightarrow> Suc j0 \<le> j" using True by simp
      moreover have "j < j0 + length (a # rest) \<longleftrightarrow> j < Suc j0 + length rest" by simp
      ultimately show ?thesis unfolding tabulate_step IH P1 using False by simp
    next
      case F2: False
      with False have "j < j0" by simp
      then show ?thesis unfolding tabulate_step IH P1 by simp
    qed
  qed
qed

lemma BuildPTP_loop_Cons:
  "BuildPTP_loop self np ((i, g) # rest) (P, fnd) =
   BuildPTP_loop self np rest
     (if followers self np g \<noteq> []
      then tabulate (alpha self) (np_unique_counts (followers self np g)) i 0 P else P,
      fnd @ map (\<lambda>a. g @ [a]) (np_unique (followers self np g)))"
  by (simp add: Let_def)

lemma BuildPTP_loop_rows:
  assumes "BuildPTP_loop self np cs (P, fnd) = (P', fnd')"
    and "length P = n_s self" and "\<forall>j<n_s self. length (P ! j) = W"
    and "\<forall>(i, g)\<in>set cs. i < W \<and> ngs ! i = g"
    and "\<forall>(i, g)\<in>set cs. \<forall>j<n_s self. P ! j ! i = 0 \<or> P ! j ! i = follow_count self np g j"
  shows "length P' = n_s self \<and> (\<forall>j<n_s self. length (P' ! j) = W) \<and>
     (\<forall>(i, g)\<in>set cs. \<forall>j<n_s self. P' ! j ! i = follow_count self np g j) \<and>
     (\<forall>i. i \<notin> fst ` set cs \<longrightarrow> (\<forall>j<n_s self. P' ! j ! i = P ! j ! i))"
  using assms
proof (induction cs arbitrary: P fnd)
  case Nil
  then show ?case by simp
next
  case (Cons ig rest)
  obtain i0 g0 where ig: "ig = (i0, g0)" by (cases ig)
  let ?chars = "followers self np g0"
  let ?P1 = "if ?chars \<noteq> [] then tabulate (alpha self) (np_unique_counts ?chars) i0 0 P else P"
  let ?f1 = "fnd @ map (\<lambda>a. g0 @ [a]) (np_unique ?chars)"
  have loop: "BuildPTP_loop self np rest (?P1, ?f1) = (P', fnd')"
    using Cons.prems(1) unfolding ig BuildPTP_loop_Cons .
  have i0: "i0 < W" and g0: "ngs ! i0 = g0" using Cons.prems(4) ig by auto
  have lenP1: "length ?P1 = n_s self" using Cons.prems(2) by simp
  have rowsP1: "\<forall>j<n_s self. length (?P1 ! j) = W"
    using Cons.prems(2,3) by (simp add: tabulate_rows)
  have nthP1: "?P1 ! j ! i' =
      (if i' = i0 \<and> alpha self ! j \<in> set ?chars then follow_count self np g0 j else P ! j ! i')"
    if "j < n_s self" for j i'
  proof (cases "?chars = []")
    case True
    then show ?thesis by simp
  next
    case False
    have "tabulate (alpha self) (np_unique_counts ?chars) i0 0 P ! j ! i' =
     (if i' = i0 \<and> 0 \<le> j \<and> j < 0 + length (alpha self) \<and> alpha self ! (j - 0) \<in> set ?chars
      then of_nat (count_list ?chars (alpha self ! (j - 0))) else P ! j ! i')"
      by (rule tabulate_nth) (use Cons.prems(2,3) i0 that in \<open>auto simp: n_s_def\<close>)
    with False that show ?thesis by (simp add: follow_count_def n_s_def)
  qed
  have P1_i0: "?P1 ! j ! i0 = follow_count self np g0 j" if "j < n_s self" for j
  proof (cases "alpha self ! j \<in> set ?chars")
    case True
    with nthP1[OF that, of i0] show ?thesis by simp
  next
    case False
    then have z: "follow_count self np g0 j = 0" by (simp add: follow_count_def)
    from Cons.prems(5) ig that have "P ! j ! i0 = 0 \<or> P ! j ! i0 = follow_count self np g0 j"
      by auto
    with z have "P ! j ! i0 = follow_count self np g0 j" by auto
    with nthP1[OF that, of i0] False show ?thesis by simp
  qed
  have P1_other: "?P1 ! j ! i = P ! j ! i" if "j < n_s self" "i \<noteq> i0" for j i
    using nthP1[OF that(1), of i] that(2) by simp
  have cons_rest: "\<forall>(i, g)\<in>set rest. i < W \<and> ngs ! i = g" using Cons.prems(4) by auto
  have pre1: "?P1 ! j ! i = 0 \<or> ?P1 ! j ! i = follow_count self np g j"
    if m: "(i, g) \<in> set rest" and j: "j < n_s self" for i g j
  proof (cases "i = i0")
    case True
    with m cons_rest g0 have "g = g0" by auto
    with True P1_i0[OF j] show ?thesis by simp
  next
    case False
    from Cons.prems(5) m j have "P ! j ! i = 0 \<or> P ! j ! i = follow_count self np g j"
      by auto
    with P1_other[OF j False] show ?thesis by simp
  qed
  have pre_rest: "\<forall>(i, g)\<in>set rest. \<forall>j<n_s self.
      ?P1 ! j ! i = 0 \<or> ?P1 ! j ! i = follow_count self np g j"
    using pre1 by blast
  note IH = Cons.IH[OF loop lenP1 rowsP1 cons_rest pre_rest]
  from IH have r1: "length P' = n_s self" and r2: "\<forall>j<n_s self. length (P' ! j) = W"
    and r3: "\<forall>(i, g)\<in>set rest. \<forall>j<n_s self. P' ! j ! i = follow_count self np g j"
    and r4: "\<forall>i. i \<notin> fst ` set rest \<longrightarrow> (\<forall>j<n_s self. P' ! j ! i = ?P1 ! j ! i)"
    by blast+
  have c3: "P' ! j ! i0 = follow_count self np g0 j" if "j < n_s self" for j
  proof (cases "i0 \<in> fst ` set rest")
    case True
    then obtain g' where m: "(i0, g') \<in> set rest" by force
    with cons_rest g0 have "g' = g0" by auto
    with r3 m that show ?thesis by auto
  next
    case False
    with r4 that have "P' ! j ! i0 = ?P1 ! j ! i0" by blast
    with P1_i0[OF that] show ?thesis by simp
  qed
  have c4: "P' ! j ! i = P ! j ! i" if "i \<notin> fst ` set (ig # rest)" "j < n_s self" for i j
  proof -
    from that(1) ig have "i \<noteq> i0" and "i \<notin> fst ` set rest" by auto
    with r4 that(2) have "P' ! j ! i = ?P1 ! j ! i" by blast
    with P1_other[OF that(2) \<open>i \<noteq> i0\<close>] show ?thesis by simp
  qed
  show ?case
  proof (intro conjI)
    show "length P' = n_s self" by (rule r1)
    show "\<forall>j<n_s self. length (P' ! j) = W" by (rule r2)
    show "\<forall>(i, g)\<in>set (ig # rest). \<forall>j<n_s self. P' ! j ! i = follow_count self np g j"
      using c3 r3 ig by auto
    show "\<forall>i. i \<notin> fst ` set (ig # rest) \<longrightarrow> (\<forall>j<n_s self. P' ! j ! i = P ! j ! i)"
      using c4 by blast
  qed
qed

lemma py_index_Inr: "py_index xs x = Inr k \<Longrightarrow> k < length xs \<and> xs ! k = x"
proof (induction xs arbitrary: k)
  case Nil
  then show ?case by simp
next
  case (Cons y ys)
  show ?case
  proof (cases "y = x")
    case True
    with Cons.prems show ?thesis by simp
  next
    case False
    with Cons.prems obtain k' where "py_index ys x = Inr k'" "k = Suc k'"
      by (auto split: sum.splits)
    with Cons.IH show ?thesis by simp
  qed
qed

lemma py_index_missing: "x \<notin> set xs \<Longrightarrow> py_index xs x = Inl ValueError"
  by (induction xs) auto

lemma py_index_Inl: "py_index xs x = Inl e \<Longrightarrow> e = ValueError"
  by (induction xs) (auto split: if_splits sum.splits)

lemma index_all_Inr:
  "index_all ngs red = Inr inds \<Longrightarrow>
   length inds = length red \<and> (\<forall>(i, g)\<in>set (zip inds red). i < length ngs \<and> ngs ! i = g)"
proof (induction red arbitrary: inds)
  case Nil
  then show ?case by simp
next
  case (Cons g gs)
  from Cons.prems obtain k ks where k: "py_index ngs g = Inr k"
    and ks: "index_all ngs gs = Inr ks" and inds: "inds = k # ks"
    by (auto split: sum.splits)
  from py_index_Inr[OF k] Cons.IH[OF ks] inds show ?case by auto
qed

lemma index_all_missing:
  "x \<in> set red \<Longrightarrow> x \<notin> set ngs \<Longrightarrow> index_all ngs red = Inl ValueError"
proof (induction red)
  case Nil
  then show ?case by simp
next
  case (Cons g gs)
  show ?case
  proof (cases "py_index ngs g")
    case (Inl e)
    with py_index_Inl[OF Inl] show ?thesis by simp
  next
    case (Inr k)
    with py_index_missing[OF Cons.prems(2)] Cons.prems(1) have "x \<in> set gs" by auto
    with Cons.IH Cons.prems(2) Inr show ?thesis by simp
  qed
qed

lemma BuildPTP_missing_candidate:
  assumes "x \<in> set red" and "x \<notin> set ngs"
  shows "BuildPTP self ngs (Some red) = Inl (if ngs = [] then IndexError else ValueError)"
  using index_all_missing[OF assms]
  by (cases ngs) (simp_all add: BuildPTP_def Let_def)

lemma sum_count_list_distinct:
  "distinct al \<Longrightarrow>
   sum_list (map (count_list chars) al) = length (filter (\<lambda>d. d \<in> set al) chars)"
proof (induction chars)
  case Nil
  show ?case by (induction al) simp_all
next
  case (Cons d chars)
  have step: "sum_list (map (count_list (d # chars)) al) =
        sum_list (map (count_list chars) al) + (if d \<in> set al then 1 else 0)"
    using Cons.prems by (induction al) auto
  show ?case unfolding step using Cons by simp
qed

lemma zip_star_length:
  "cols \<noteq> [] \<Longrightarrow> \<forall>c\<in>set cols. length c = W \<Longrightarrow> length (zip_star cols) = W"
proof (induction W arbitrary: cols)
  case 0
  then have "[] \<in> set cols" by (cases cols) auto
  then show ?case by (simp add: zip_star_empty)
next
  case (Suc W)
  then have ne: "[] \<notin> set cols" by auto
  have "length (zip_star (map tl cols)) = W"
    using Suc.prems by (intro Suc.IH) auto
  with zip_star_step[OF Suc.prems(1) ne] show ?case by simp
qed

lemma MakenGrams_all_over_alphabet:
  assumes "l \<in> set (MakenGrams_all al mx)" and "s \<in> set l"
  shows "set s \<subseteq> set al"
proof -
  from assms(1) consider "l = map (\<lambda>c. [c]) al"
    | k where "l = join_columns (ngram_columns al k)"
    unfolding MakenGrams_all_eq by auto
  then show ?thesis
  proof cases
    case 1
    with assms(2) show ?thesis by auto
  next
    case (2 k)
    show ?thesis
    proof (cases "k = 0")
      case True
      with 2 assms(2) show ?thesis by (simp add: join_columns_def)
    next
      case False
      with 2 assms(2) have "s \<in> set (product_lists (replicate k (sort al)))"
        by (simp add: join_columns_product)
      then show ?thesis unfolding set_product_replicate by simp
    qed
  qed
qed

lemma BuildPTP_candidates:
  assumes "BuildPTP self ngs red = Inr (P, fnd)"
  obtains cs P' where "ngs \<noteq> []"
    and "BuildPTP_loop self (length (hd ngs)) cs
           (replicate (n_s self) (replicate (length ngs) 0), []) = (P', fnd)"
    and "P = finish_PTP P'"
    and "\<forall>(i, g)\<in>set cs. i < length ngs \<and> ngs ! i = g"
    and "snd ` set cs = set (case red of None \<Rightarrow> ngs | Some rd \<Rightarrow> rd)"
proof -
  from assms obtain searchMe inds P' where ne: "ngs \<noteq> []"
    and sel: "case red of None \<Rightarrow> searchMe = ngs \<and> inds = [0..<length ngs]
                   | Some rd \<Rightarrow> searchMe = rd \<and> index_all ngs rd = Inr inds"
    and loop: "BuildPTP_loop self (length (hd ngs)) (zip inds searchMe)
           (replicate (n_s self) (replicate (length ngs) 0), []) = (P', fnd)"
    and P: "P = finish_PTP P'"
    by (rule BuildPTP_InrD)
  have len: "length inds = length searchMe"
    and cons: "\<forall>(i, g)\<in>set (zip inds searchMe). i < length ngs \<and> ngs ! i = g"
    and sm: "searchMe = (case red of None \<Rightarrow> ngs | Some rd \<Rightarrow> rd)"
  proof -
    show "length inds = length searchMe"
      using sel index_all_Inr by (cases red) auto
    show "\<forall>(i, g)\<in>set (zip inds searchMe). i < length ngs \<and> ngs ! i = g"
    proof (cases red)
      case None
      with sel show ?thesis by (auto simp: set_zip)
    next
      case (Some rd)
      with sel index_all_Inr[of ngs rd inds] show ?thesis by simp
    qed
    show "searchMe = (case red of None \<Rightarrow> ngs | Some rd \<Rightarrow> rd)"
      using sel by (cases red) auto
  qed
  have "snd ` set (zip inds searchMe) = set searchMe"
    using len by (metis map_snd_zip set_map)
  with sm have "snd ` set (zip inds searchMe) = set (case red of None \<Rightarrow> ngs | Some rd \<Rightarrow> rd)"
    by simp
  with ne loop P cons show ?thesis by (rule that)
qed

lemma ex10_build:
  "BuildPTP ex10 [''a'', ''b''] None =
     Inr ([[0, 0], [1, 0], [1, 0], [0, 0], [1, 0]], [''ab'', ''bc''])"
  by code_simp

lemma ex10_followers: "followers ex10 1 ''b'' = ''c''"
  by code_simp

lemma ex10_ngrams: "MakenGrams_all ''ab'' 2 = [[''a'', ''b''], [''aa'', ''ab'', ''ba'', ''bb'']]"
  by code_simp

subsection \<open>The stopping rule of BuildPTPs\<close>

text \<open>\<open>BuildPTPs\<close> stops at the first length whose stored SI is below the threshold.\<close>

lemma BuildPTPs_stop_at_stored_SI:
  assumes "BuildPTPs self = Inr m"
  shows "\<exists>st. BuildPTPs_run self = Inr (n_p m, st) \<and> PTPs m = acc_PTPs st \<and>
     length (PTPs m) = n_p m \<and> n_p m \<le> nat (maxn_p self) \<and>
     (\<forall>k<nat (maxn_p self).
        sp_si st ! k < t_np self \<and> (\<forall>j<k. t_np self \<le> sp_si st ! j) \<longrightarrow> n_p m = k) \<and>
     ((\<forall>j<nat (maxn_p self). t_np self \<le> sp_si st ! j) \<longrightarrow> n_p m = nat (maxn_p self)) \<and>
     (n_p m < nat (maxn_p self) \<longrightarrow> sp_si st ! n_p m < t_np self) \<and>
     (\<forall>j<n_p m. t_np self \<le> sp_si st ! j) \<and>
     (\<forall>j<nat (maxn_p self). j \<le> n_p m \<longrightarrow>
        sp_si st ! j = sp_obs st ! j / of_nat (n_s self ^ (j + 1))) \<and>
     (2 < nat (maxn_p self) \<and> t_np self \<le> sp_si st ! 0 \<and> t_np self \<le> sp_si st ! 1 \<and>
      sp_si st ! 2 < t_np self \<longrightarrow> n_p m = 2 \<and> length (PTPs m) = 2)"
proof -
  from assms obtain st where run: "BuildPTPs_run self = Inr (n_p m, st)"
    and P: "PTPs m = acc_PTPs st" by (rule BuildPTPs_InrD)
  note pr = BuildPTPs_run_props[OF run]
  let ?mx = "nat (maxn_p self)" and ?t = "t_np self"
  have first: "n_p m = k" if "k < ?mx" "sp_si st ! k < ?t" "\<forall>j<k. ?t \<le> sp_si st ! j" for k
  proof (rule ccontr)
    assume "n_p m \<noteq> k"
    then consider "n_p m < k" | "k < n_p m" by linarith
    then show False
    proof cases
      case 1
      with that pr(6) show ?thesis by auto
    next
      case 2
      with that pr(5) show ?thesis by auto
    qed
  qed
  have all: "n_p m = ?mx" if "\<forall>j<?mx. ?t \<le> sp_si st ! j"
    using that pr(2,6) by (cases "n_p m < ?mx") auto
  have three: "n_p m = 2 \<and> length (PTPs m) = 2"
    if "2 < ?mx \<and> ?t \<le> sp_si st ! 0 \<and> ?t \<le> sp_si st ! 1 \<and> sp_si st ! 2 < ?t"
  proof -
    have "\<forall>j<2. ?t \<le> sp_si st ! j" using that by (auto simp: less_Suc_eq numeral_2_eq_2)
    with that first[of 2] have "n_p m = 2" by simp
    with pr(1) P show ?thesis by simp
  qed
  show ?thesis
  proof (intro exI[of _ st] conjI allI impI)
    show "BuildPTPs_run self = Inr (n_p m, st)" by (rule run)
    show "PTPs m = acc_PTPs st" by (rule P)
    show "length (PTPs m) = n_p m" using pr(1) P by simp
    show "n_p m \<le> ?mx" by (rule pr(2))
    show "n_p m = k" if "k < ?mx" "sp_si st ! k < ?t \<and> (\<forall>j<k. ?t \<le> sp_si st ! j)" for k
      using that first[of k] by blast
    show "n_p m = ?mx" if "\<forall>j<?mx. ?t \<le> sp_si st ! j" using that by (rule all)
    show "sp_si st ! n_p m < ?t" if "n_p m < ?mx" using that pr(6) by blast
    show "?t \<le> sp_si st ! j" if "j < n_p m" for j using that pr(5) by blast
    show "sp_si st ! j = sp_obs st ! j / of_nat (n_s self ^ (j + 1))"
      if "j < ?mx" "j \<le> n_p m" for j using that pr(7) by blast
    show "n_p m = 2"
      if "2 < ?mx \<and> ?t \<le> sp_si st ! 0 \<and> ?t \<le> sp_si st ! 1 \<and> sp_si st ! 2 < ?t"
      using three[OF that] by (rule conjunct1)
    show "length (PTPs m) = 2"
      if "2 < ?mx \<and> ?t \<le> sp_si st ! 0 \<and> ?t \<le> sp_si st ! 1 \<and> sp_si st ! 2 < ?t"
      using three[OF that] by (rule conjunct2)
  qed
qed

text \<open>The observed count that \<open>BuildPTPs\<close> computes for the length 1.\<close>

lemma length1_observed_le_1:
  fixes xs :: "'a::linorder list"
  shows "length (np_unique (map butlast (map (\<lambda>c. [c]) xs))) \<le> 1"
proof -
  have "set (map butlast (map (\<lambda>c. [c]) xs)) \<subseteq> {[]}" by auto
  then have sub: "set (np_unique (map butlast (map (\<lambda>c. [c]) xs))) \<subseteq> {[]}"
    by (simp only: set_np_unique)
  have dist: "distinct (np_unique (map butlast (map (\<lambda>c. [c]) xs)))"
    by (rule distinct_np_unique)
  have fin: "finite {[]::'a list}" by simp
  have "card (set (np_unique (map butlast (map (\<lambda>c. [c]) xs)))) \<le> card {[]::'a list}"
    by (rule card_mono [OF fin sub])
  then have "length (np_unique (map butlast (map (\<lambda>c. [c]) xs))) \<le> card {[]::'a list}"
    by (simp only: distinct_card [OF dist])
  then show ?thesis by (simp only: card.empty card_insert_disjoint finite.emptyI empty_iff
        not_False_eq_True One_nat_def)
qed

subsection \<open>Predict\<close>

lemma and_then_Inl: "and_then r f = Inl e \<longleftrightarrow> r = Inl e \<or> (\<exists>x. r = Inr x \<and> f x = Inl e)"
  by (cases r) (simp_all add: and_then_def)

lemma and_then_simps [simp]: "and_then (Inl e) f = Inl e" "and_then (Inr x) f = f x"
  by (simp_all add: and_then_def)

lemma and_then_assoc: "and_then (and_then r f) g = and_then r (\<lambda>x. and_then (f x) g)"
  by (cases r) simp_all

lemma Predict_loop_step:
  "Predict_loop self ps (i # rest) (aP, w) =
   and_then (scale_row self ps i) (\<lambda>(row, t).
     Predict_loop self ps rest (aP @ [row], w - (if t = 0 then 1 else 0)))"
  by (simp add: scale_row_def Let_def and_then_assoc)

lemma py_nth_Inl: "py_nth xs i = Inl e \<Longrightarrow> e = IndexError"
  by (simp add: py_nth_def split: if_splits)

lemma map_err_py_nth_Inl: "map_err (\<lambda>p. py_nth p k) xs = Inl e \<Longrightarrow> e = IndexError"
proof (induction xs)
  case Nil
  then show ?case by simp
next
  case (Cons x xs)
  then show ?case
    by (auto simp: and_then_Inl dest: py_nth_Inl)
qed

lemma scale_row_Inl: "scale_row self ps i = Inl e \<Longrightarrow> e \<noteq> ZeroDivisionError"
  unfolding scale_row_def Let_def and_then_Inl
  by (auto dest: py_nth_Inl py_index_Inl map_err_py_nth_Inl)

lemma Predict_loop_Inl:
  "Predict_loop self ps is (aP, w) = Inl e \<Longrightarrow> e \<noteq> ZeroDivisionError"
proof (induction "is" arbitrary: aP w)
  case Nil
  then show ?case by simp
next
  case (Cons i rest)
  from Cons.prems consider "scale_row self ps i = Inl e"
    | row t where "scale_row self ps i = Inr (row, t)"
      "Predict_loop self ps rest (aP @ [row], w - (if t = 0 then 1 else 0)) = Inl e"
    unfolding Predict_loop_step and_then_Inl by auto
  then show ?case
  proof cases
    case 1
    then show ?thesis by (rule scale_row_Inl)
  next
    case 2
    from Cons.IH[OF 2(2)] show ?thesis .
  qed
qed

lemma Predict_loop_Inr:
  "Predict_loop self ps is (aP, w) = Inr (aP', w') \<longleftrightarrow>
   (\<forall>i\<in>set is. \<exists>r. scale_row self ps i = Inr r) \<and>
   aP' = aP @ map (\<lambda>i. fst (projr (scale_row self ps i))) is \<and>
   w' = w - int (length (filter (\<lambda>i. snd (projr (scale_row self ps i)) = 0) is))"
proof (induction "is" arbitrary: aP w)
  case Nil
  show ?case by auto
next
  case (Cons i rest)
  show ?case
  proof (cases "scale_row self ps i")
    case (Inl e)
    then show ?thesis unfolding Predict_loop_step by simp
  next
    case (Inr r)
    obtain row t where r: "r = (row, t)" by (cases r)
    show ?thesis
      unfolding Predict_loop_step Inr r using Cons.IH[of "aP @ [row]" "w - (if t = 0 then 1 else 0)"]
      by (cases "t = 0") (simp_all add: Inr r diff_diff_eq)
  qed
qed

lemma length_filter_eq_iff:
  "length (filter P xs) = length xs \<longleftrightarrow> (\<forall>x\<in>set xs. P x)"
proof (induction xs)
  case Nil
  show ?case by simp
next
  case (Cons x xs)
  have le: "length (filter P xs) \<le> length xs" by simp
  show ?case
  proof (cases "P x")
    case True
    with Cons show ?thesis by simp
  next
    case False
    from le have "length (filter P xs) \<noteq> Suc (length xs)" by linarith
    with False show ?thesis by simp
  qed
qed

lemma map_err_const_Inl:
  "map_err (\<lambda>x. Inl e) xs = (if xs = [] then Inr [] else Inl e)"
  by (cases xs) simp_all

lemma map_err_Inr: "map_err (\<lambda>x. Inr (f x)) xs = Inr (map f xs)"
  by (induction xs) simp_all

lemma average_eq:
  "average aP w =
     (if w = 0 then (if zip_star aP = [] then Inr [] else Inl ZeroDivisionError)
      else Inr (map (\<lambda>col. sum_list col / of_int w) (zip_star aP)))"
  by (simp add: average_def map_err_const_Inl map_err_Inr)

lemma zip_star_ne_iff: "zip_star cols \<noteq> [] \<longleftrightarrow> cols \<noteq> [] \<and> [] \<notin> set cols"
  using zip_star_empty[of cols] zip_star_step[of cols] by auto

lemma py_max_Inl: "py_max xs = Inl e \<Longrightarrow> e = ValueError"
  by (cases xs) (simp_all add: py_max_def)

lemma Predict_eq:
  "Predict self predStart =
     and_then (Predict_loop self (pred_context self predStart) [0..<pred_weight self predStart]
                 ([], int (pred_weight self predStart))) (\<lambda>(alphaProbs, w').
     and_then (average alphaProbs w') (\<lambda>probs.
     and_then (py_max probs) (\<lambda>m.
     and_then (py_index probs m) (\<lambda>k.
     and_then (py_nth (alpha self) k) (\<lambda>a. Inr (a, probs))))))"
  by (cases predStart) (simp_all add: Predict_def pred_context_def pred_weight_def)

lemma Predict_ZeroDivisionError_iff:
  "Predict self predStart = Inl ZeroDivisionError \<longleftrightarrow>
   (\<exists>aP. Predict_loop self (pred_context self predStart) [0..<pred_weight self predStart]
            ([], int (pred_weight self predStart)) = Inr (aP, 0) \<and> zip_star aP \<noteq> [])"
proof -
  let ?loop = "Predict_loop self (pred_context self predStart) [0..<pred_weight self predStart]
                 ([], int (pred_weight self predStart))"
  show ?thesis
  proof (cases ?loop)
    case (Inl e)
    with Predict_loop_Inl[OF Inl] show ?thesis unfolding Predict_eq by simp
  next
    case (Inr r)
    obtain aP w' where r: "r = (aP, w')" by (cases r)
    have tail: "and_then (py_max probs) (\<lambda>m.
        and_then (py_index probs m) (\<lambda>k.
        and_then (py_nth (alpha self) k) (\<lambda>a. Inr (a, probs)))) \<noteq> Inl ZeroDivisionError"
      for probs
      unfolding and_then_Inl
      by (auto dest: py_max_Inl py_index_Inl py_nth_Inl)
    show ?thesis
    proof (cases "w' = 0 \<and> zip_star aP \<noteq> []")
      case True
      then show ?thesis unfolding Predict_eq Inr r by (simp add: average_eq)
    next
      case False
      then have "\<exists>probs. average aP w' = Inr probs" by (auto simp: average_eq)
      then obtain probs where "average aP w' = Inr probs" by blast
      with tail[of probs] False show ?thesis unfolding Predict_eq Inr r by auto
    qed
  qed
qed

lemma ex5_build: "BuildPTPs ex5_input = Inr ex5"
  by code_simp

subsection \<open>Simulate\<close>





subsection \<open>Distance\<close>

lemma BuildPTP_loop_shape:
  "BuildPTP_loop self np cs (P, fnd) = (P', fnd') \<Longrightarrow>
   length P' = length P \<and> (\<forall>j<length P. length (P' ! j) = length (P ! j))"
proof (induction cs arbitrary: P fnd)
  case Nil
  then show ?case by simp
next
  case (Cons ig cs)
  obtain i g where ig: "ig = (i, g)" by (cases ig)
  show ?case
  proof (cases "followers self np g = []")
    case True
    with Cons.prems ig have "BuildPTP_loop self np cs (P, fnd) = (P', fnd')"
      by (simp add: Let_def)
    from Cons.IH[OF this] show ?thesis .
  next
    case False
    let ?T = "tabulate (alpha self) (np_unique_counts (followers self np g)) i 0 P"
    from False Cons.prems ig obtain f where
      "BuildPTP_loop self np cs (?T, f) = (P', fnd')"
      by (simp add: Let_def)
    from Cons.IH[OF this] have "length P' = length ?T"
      and "\<forall>j<length ?T. length (P' ! j) = length (?T ! j)" by blast+
    then show ?thesis by (simp add: tabulate_rows)
  qed
qed

lemma drop_finish_PTP:
  "drop (length P + 1) (finish_PTP P) =
   map (\<lambda>col. map (\<lambda>(i, t). if t \<noteq> 0 then i / t else 0) (zip col (map sum_list (zip_star P)))) P"
  by (simp add: finish_PTP_def Let_def)

lemma finish_PTP_shape:
  assumes len: "length P = S" and rows: "\<forall>j<S. length (P ! j) = W"
  shows "has_shape S W (drop (S + 1) (finish_PTP P))"
proof (cases "P = []")
  case True
  with len have "S = 0" by simp
  with True drop_finish_PTP[of P] show ?thesis by (simp add: has_shape_def)
next
  case False
  from len rows have all: "\<forall>c\<in>set P. length c = W" by (auto simp: in_set_conv_nth)
  from zip_star_length[OF False all] have "length (zip_star P) = W" .
  with all len show ?thesis
    unfolding len[symmetric] drop_finish_PTP by (simp add: has_shape_def list_all_iff)
qed

lemma BuildPTP_shape:
  assumes "BuildPTP self ngs red = Inr (P, fnd)"
  shows "has_shape (n_s self) (length ngs) (drop (n_s self + 1) P)"
proof -
  from assms obtain searchMe inds P' where
    loop: "BuildPTP_loop self (length (hd ngs)) (zip inds searchMe)
           (replicate (n_s self) (replicate (length ngs) 0), []) = (P', fnd)"
    and P: "P = finish_PTP P'"
    by (rule BuildPTP_InrD)
  from BuildPTP_loop_shape[OF loop] have "length P' = n_s self"
    and "\<forall>j<n_s self. length (P' ! j) = length ngs" by simp_all
  then show ?thesis unfolding P by (rule finish_PTP_shape)
qed

lemma BuildPTPs_loop_shapes:
  assumes "BuildPTPs_loop self ngramS poss is cur st = Inr (cur', st')"
    and "list_all2 (PTP_shaped self ngramS poss) ds (acc_PTPs st)"
  shows "\<exists>k. list_all2 (PTP_shaped self ngramS poss) (ds @ take k is) (acc_PTPs st')"
  using assms
proof (induction "is" arbitrary: cur st ds)
  case Nil
  then show ?case by simp
next
  case (Cons i rest)
  define obs :: rat where "obs = of_nat (length (np_unique (map butlast (fnd_ip1 st))))"
  define st2 where "st2 = st\<lparr>sp_obs := (sp_obs st)[i := obs], sp_si := (sp_si st)[i := obs / poss ! i]\<rparr>"
  have acc2: "acc_PTPs st2 = acc_PTPs st" by (simp add: st2_def)
  from Cons.prems(1) have nz: "poss ! i \<noteq> 0"
    by (auto simp: Let_def split: if_splits)
  show ?case
  proof (cases "sp_si st2 ! i < t_np self")
    case True
    with Cons.prems(1) nz have "st' = st2"
      by (auto simp: Let_def st2_def obs_def)
    with Cons.prems(2) acc2 have "list_all2 (PTP_shaped self ngramS poss) (ds @ take 0 (i # rest)) (acc_PTPs st')"
      by simp
    then show ?thesis by blast
  next
    case False
    with Cons.prems(1) nz obtain ngs P fnd where
      ngs: "py_nth ngramS i = Inr ngs"
      and bp: "BuildPTP self ngs (Some (fnd_ip1 st2)) = Inr (P, fnd)"
      and rec: "BuildPTPs_loop self ngramS poss rest (Some i)
              (st2\<lparr>fnd_ip1 := fnd, acc_PTPs := acc_PTPs st2 @ [P]\<rparr>) = Inr (cur', st')"
      by (auto simp: Let_def st2_def obs_def and_then_Inr split: prod.splits)
    from ngs have il: "i < length ngramS" and ngs_eq: "ngs = ngramS ! i"
      by (auto simp: py_nth_def split: if_splits)
    from BuildPTP_shape[OF bp] il nz have "PTP_shaped self ngramS poss i P"
      by (simp add: PTP_shaped_def ngs_eq)
    with Cons.prems(2) have
      "list_all2 (PTP_shaped self ngramS poss) (ds @ [i])
         (acc_PTPs (st2\<lparr>fnd_ip1 := fnd, acc_PTPs := acc_PTPs st2 @ [P]\<rparr>))"
      by (simp add: acc2 list_all2_appendI)
    from Cons.IH[OF rec this] obtain k where
      "list_all2 (PTP_shaped self ngramS poss) ((ds @ [i]) @ take k rest) (acc_PTPs st')" ..
    then have "list_all2 (PTP_shaped self ngramS poss) (ds @ take (Suc k) (i # rest)) (acc_PTPs st')"
      by simp
    then show ?thesis by blast
  qed
qed

lemma length_MakenGrams_all_nth:
  assumes "k < nat mx"
  shows "length (MakenGrams_all al mx ! k) = length al ^ (k + 1)"
proof -
  from assms have a: "1 \<le> k + 1" and b: "int (k + 1) \<le> mx" by simp_all
  have "length (MakenGrams_all al mx ! (k + 1 - 1)) = length al ^ (k + 1)"
  proof (cases "k + 1 = 1")
    case True
    then show ?thesis unfolding MakenGrams_all_nth[OF a b] by simp
  next
    case False
    show ?thesis unfolding MakenGrams_all_nth[OF a b]
      by (simp only: False if_False length_product_replicate length_sort)
  qed
  then show ?thesis by simp
qed

lemma BuildPTPs_shaped:
  assumes "BuildPTPs self = Inr m"
  shows "PTPs_shaped m"
proof -
  let ?mx = "nat (maxn_p self)"
  let ?ngramS = "MakenGrams_all (alpha self) (maxn_p self)"
  let ?poss = "map (\<lambda>i. of_nat (n_s self ^ i)) [1..<?mx + 1] :: rat list"
  from assms obtain st where run: "BuildPTPs_run self = Inr (n_p m, st)"
    and P: "PTPs m = acc_PTPs st" and al: "alpha m = alpha self"
    by (rule BuildPTPs_InrD)
  have ns: "n_s m = n_s self" by (simp add: n_s_def al)
  from BuildPTPs_run_props(1,2)[OF run] have len: "n_p m = length (acc_PTPs st)"
    and le: "n_p m \<le> ?mx" .
  from run obtain c where loop: "BuildPTPs_loop self ?ngramS ?poss [0..<?mx] None
       \<lparr>sp_obs = replicate ?mx 0, sp_si = replicate ?mx 0,
        fnd_ip1 = map (\<lambda>c. [c]) (np_unique (sequence self)), acc_PTPs = []\<rparr> = Inr (Some c, st)"
    by (rule BuildPTPs_run_InrD)
  have "\<exists>k. list_all2 (PTP_shaped self ?ngramS ?poss) ([] @ take k [0..<?mx]) (acc_PTPs st)"
    by (rule BuildPTPs_loop_shapes[OF loop]) simp
  then obtain k where all: "list_all2 (PTP_shaped self ?ngramS ?poss) (take k [0..<?mx]) (acc_PTPs st)"
    by auto
  have lk: "length (take k [0..<?mx]) = n_p m"
    unfolding len by (rule list_all2_lengthD[OF all])
  have "1 \<le> n_s m \<and> has_shape (n_s m) (n_s m ^ (j + 1)) (drop (n_s m + 1) (PTPs m ! j))"
    if j: "j < n_p m" for j
  proof -
    from j le have jm: "j < ?mx" by simp
    from j lk have jk: "j < length (take k [0..<?mx])" by simp
    then have "take k [0..<?mx] ! j = j" using jm by simp
    with list_all2_nthD[OF all jk] have sh: "PTP_shaped self ?ngramS ?poss j (acc_PTPs st ! j)"
      by simp
    have up: "[1..<?mx + 1] ! j = 1 + j" by (rule nth_upt) (use jm in simp)
    have "j < length [1..<?mx + 1]" using jm by simp
    then have "?poss ! j = of_nat (n_s self ^ (1 + j))" by (simp only: nth_map up)
    with sh have "n_s self \<noteq> 0" by (auto simp: PTP_shaped_def)
    moreover from sh have "has_shape (n_s self) (length (?ngramS ! j)) (drop (n_s self + 1) (acc_PTPs st ! j))"
      by (simp add: PTP_shaped_def)
    moreover have "length (?ngramS ! j) = n_s self ^ (j + 1)"
      using length_MakenGrams_all_nth[OF jm] by (simp add: n_s_def)
    ultimately show ?thesis by (simp add: ns P)
  qed
  with len P show ?thesis by (simp add: PTPs_shaped_def)
qed

lemma has_shape_embed:
  "has_shape r c m \<Longrightarrow> r \<le> R \<Longrightarrow> c \<le> C \<Longrightarrow> has_shape R C (embed R C m)"
  by (auto simp: has_shape_def embed_def list_all_iff)

lemma has_shape_zeros: "has_shape R C (np_zeros R C)"
  by (simp add: has_shape_def np_zeros_def list_all_iff)

lemma probs_block_shaped:
  assumes sh: "PTPs_shaped m" and le: "n_s m \<le> Ns"
  shows "\<exists>B. probs_block m Ns k = Inr B \<and> has_shape Ns (Ns ^ (k + 1)) B"
proof (cases "k < n_p m")
  case False
  with sh have "py_nth (PTPs m) k = Inl IndexError" by (simp add: PTPs_shaped_def py_nth_def)
  then show ?thesis by (simp add: probs_block_def has_shape_zeros)
next
  case True
  let ?mine = "drop (n_s m + 1) (PTPs m ! k)"
  from True sh have nth: "py_nth (PTPs m) k = Inr (PTPs m ! k)"
    and pos: "1 \<le> n_s m" and hs: "has_shape (n_s m) (n_s m ^ (k + 1)) ?mine"
    by (simp_all add: PTPs_shaped_def py_nth_def)
  from hs pos have ne: "?mine \<noteq> []" and lm: "length ?mine = n_s m"
    unfolding has_shape_def by auto
  from ne have "hd ?mine \<in> set ?mine" by (rule hd_in_set)
  with hs have lh: "length (hd ?mine) = n_s m ^ (k + 1)"
    unfolding has_shape_def list_all_iff by blast
  from le have pw: "n_s m ^ (k + 1) \<le> Ns ^ (k + 1)" by (rule power_mono) simp
  have eq: "probs_block m Ns k =
      (if n_s m < Ns then Inr (embed Ns (Ns ^ (k + 1)) ?mine) else Inr ?mine)"
    unfolding probs_block_def nth using ne lm lh hs le pw by (simp add: Let_def)
  show ?thesis
  proof (cases "n_s m < Ns")
    case True
    with eq has_shape_embed[OF hs le pw] show ?thesis by simp
  next
    case False
    with le have "n_s m = Ns" by simp
    with eq hs show ?thesis by simp
  qed
qed

lemma sum_abs_diff_shaped:
  assumes "has_shape R C a" and "has_shape R C b"
  shows "\<exists>d. sum_abs_diff b a = Inr d"
proof -
  from assms have "length b = length a" by (simp add: has_shape_def)
  moreover from assms have "list_all2 (\<lambda>x y. length x = length y) b a"
    by (auto simp: has_shape_def list_all_iff list_all2_conv_all_nth)
  ultimately show ?thesis by (simp add: sum_abs_diff_def)
qed

lemma Distance_loop_shaped:
  assumes "PTPs_shaped A" and "PTPs_shaped B" and "n_s A \<le> Ns" and "n_s B \<le> Ns"
  shows "\<exists>d. Distance_loop A B Ns ks diff = Inr d"
proof (induction ks arbitrary: diff)
  case Nil
  show ?case by simp
next
  case (Cons k ks)
  from probs_block_shaped[OF assms(1,3)] obtain mine where
    m: "probs_block A Ns k = Inr mine" "has_shape Ns (Ns ^ (k + 1)) mine" by blast
  from probs_block_shaped[OF assms(2,4)] obtain his where
    h: "probs_block B Ns k = Inr his" "has_shape Ns (Ns ^ (k + 1)) his" by blast
  from sum_abs_diff_shaped[OF m(2) h(2)] obtain d where d: "sum_abs_diff his mine = Inr d" ..
  from Cons[of "diff + d"] show ?case by (simp add: m(1) h(1) d)
qed

lemma sum_zip_commute:
  "sum_list (map (\<lambda>(x, y). f x y) (zip a b)) = sum_list (map (\<lambda>(x, y). f y x) (zip b a))"
proof (induction a arbitrary: b)
  case Nil
  show ?case by simp
next
  case (Cons x a)
  then show ?case by (cases b) simp_all
qed

lemma sum_abs_diff_sym: "sum_abs_diff a b = sum_abs_diff b a"
proof -
  have c: "list_all2 (\<lambda>x y. length x = length y) a b \<longleftrightarrow> list_all2 (\<lambda>x y. length x = length y) b a"
    by (auto simp: list_all2_conv_all_nth)
  have i: "(\<lambda>x y. sum_list (map (\<lambda>(u, v). \<bar>u - v\<bar>) (zip x y))) =
           (\<lambda>x y. sum_list (map (\<lambda>(u, v :: rat). \<bar>u - v\<bar>) (zip y x)))"
    by (intro ext, subst sum_zip_commute) (simp add: abs_minus_commute)
  have "sum_list (map (\<lambda>(x, y). sum_list (map (\<lambda>(u, v). \<bar>u - v\<bar>) (zip x y))) (zip a b)) =
        sum_list (map (\<lambda>(x, y). sum_list (map (\<lambda>(u, v :: rat). \<bar>u - v\<bar>) (zip y x))) (zip b a))"
    by (rule sum_zip_commute)
  also have "\<dots> = sum_list (map (\<lambda>(x, y). sum_list (map (\<lambda>(u, v). \<bar>u - v\<bar>) (zip x y))) (zip b a))"
    using i by (metis (no_types))
  finally show ?thesis using c by (auto simp: sum_abs_diff_def)
qed

lemma probs_block_Inl: "probs_block m Ns k = Inl e \<Longrightarrow> e = ValueError"
  by (auto simp: probs_block_def Let_def split: sum.splits if_splits)

lemma Distance_loop_sym: "Distance_loop A B Ns ks d = Distance_loop B A Ns ks d"
proof (induction ks arbitrary: d)
  case Nil
  show ?case by simp
next
  case (Cons k ks)
  show ?case
  proof (cases "probs_block A Ns k")
    case (Inl e)
    note a = this
    show ?thesis
    proof (cases "probs_block B Ns k")
      case (Inl e')
      with a probs_block_Inl[OF a] probs_block_Inl[OF Inl] show ?thesis by simp
    next
      case (Inr his)
      with a show ?thesis by simp
    qed
  next
    case (Inr mine)
    note a = this
    show ?thesis
    proof (cases "probs_block B Ns k")
      case (Inl e')
      with a show ?thesis by simp
    next
      case (Inr his)
      have l: "Distance_loop A B Ns (k # ks) d =
          and_then (sum_abs_diff his mine) (\<lambda>x. Distance_loop A B Ns ks (d + x))"
        by (simp add: a Inr)
      have r: "Distance_loop B A Ns (k # ks) d =
          and_then (sum_abs_diff his mine) (\<lambda>x. Distance_loop B A Ns ks (d + x))"
        by (simp add: a Inr sum_abs_diff_sym[of mine his])
      show ?thesis unfolding l r by (simp add: Cons)
    qed
  qed
qed

lemma Distance_sym: "Distance A B = Distance B A"
  by (simp add: Distance_def Let_def max.commute Distance_loop_sym)

lemma sum_abs_diff_self: "sum_abs_diff a a = Inr 0"
proof -
  have "list_all2 (\<lambda>x y. length x = length y) a a" by (simp add: list_all2_conv_all_nth)
  moreover have "sum_list (map (\<lambda>(u, v :: rat). \<bar>u - v\<bar>) (zip x x)) = 0" for x
    by (induction x) simp_all
  then have "sum_list (map (\<lambda>(x, y). sum_list (map (\<lambda>(u, v :: rat). \<bar>u - v\<bar>) (zip x y))) (zip a a)) = 0"
    by (induction a) simp_all
  ultimately show ?thesis by (simp add: sum_abs_diff_def)
qed

lemma Distance_loop_self:
  assumes "PTPs_shaped A" and "n_s A \<le> Ns"
  shows "Distance_loop A A Ns ks d = Inr d"
proof (induction ks)
  case Nil
  show ?case by simp
next
  case (Cons k ks)
  from probs_block_shaped[OF assms] obtain mine where "probs_block A Ns k = Inr mine" by blast
  with Cons show ?case by (simp add: sum_abs_diff_self)
qed

lemma ex8_build: "BuildPTPs ex8_input = Inr ex8"
  by code_simp

section \<open>Claims\<close>

text \<open>C9: for \<open>maxn_p \<le> 0\<close> the generator is claimed to return an empty collection in
  both modes.  With \<open>only=True\<close> it does; with \<open>only=False\<close> the list of the longest
  ngrams (empty) and the alphabet are appended without regard to \<open>maxn_p\<close>, so the
  result holds two lists although the docstring promises \<open>maxn_p\<close> of them.  Evaluated
  here for the alphabet \<open>a, b\<close> and \<open>maxn_p = 0\<close>.\<close>

theorem C9_MakenGrams_nonpositive:
  "MakenGrams_only ''ab'' 0 = [] \<and> MakenGrams_all ''ab'' 0 = [''a'', ''b''] # [[]]"
  by (simp add: MakenGrams_only_nonpos MakenGrams_all_nonpos)

text \<open>C1: the substring search that \<open>BuildPTP\<close> uses is claimed to return, for every
  pattern, exactly the ascending list of the start indices \<open>i\<close> with \<open>i + L \<le> N\<close>
  at which the sequence holds the pattern.  The empty pattern occurs at every index
  \<open>0..N\<close>, and the search returns the empty list for it (4.1, failure modes), so the
  claim fails for \<open>L = 0\<close>: here for the sequence \<open>ab\<close>.\<close>

theorem C1_HashSearch_empty_pattern_counterexample:
  "HashSearch ''ab'' [] 7 3 \<noteq>
   filter (\<lambda>i. i + length ([]::string) \<le> length ''ab'' \<and>
               take (length ([]::string)) (drop i ''ab'') = [])
     [0..<Suc (length ''ab'')]"
  by (simp add: HashSearch_def)

text \<open>C1, amended: for every pattern of length \<open>L \<ge> 1\<close>, every sequence and every
  modulus and base, the search returns exactly the ascending list of the start indices
  \<open>i\<close> with \<open>i + L \<le> N\<close> at which the sequence holds the pattern: a window whose
  hash collides with the pattern's is rejected by the comparison, and a window that
  holds the pattern has the pattern's hash.  For the empty pattern the result is
  empty.\<close>

theorem C1_HashSearch_exact:
  "(pat \<noteq> [] \<longrightarrow>
      HashSearch tx pat p x =
      filter (\<lambda>i. i + length pat \<le> length tx \<and> take (length pat) (drop i tx) = pat)
        [0..<Suc (length tx)]) \<and>
   HashSearch tx [] p x = []"
  using HashSearch_exact by (simp add: HashSearch_def)

theorem C1_HashSearch_exact_witness:
  "''ab'' \<noteq> [] \<and> HashSearch ''abcabab'' ''ab'' 7 3 = [0, 3, 5]"
proof -
  have "filter (\<lambda>i. i + length ''ab'' \<le> length ''abcabab'' \<and>
                  take (length ''ab'') (drop i ''abcabab'') = ''ab'')
          [0..<Suc (length ''abcabab'')] = [0, 3, 5]"
    by code_simp
  with C1_HashSearch_exact[of "''ab''" "''abcabab''" 7 3] show ?thesis by simp
qed

text \<open>C3: the retained count \<open>n_p\<close> is claimed to be the number of lengths before the
  first length whose sparsity ratio, observed count over \<open>S^L\<close>, is below the
  threshold.  \<open>BuildPTPs\<close> stops at the first length whose stored SI is below the
  threshold, but for the length 1 it takes as observed count the number of distinct
  values of \<open>i[:-1]\<close> over the one-symbol strings of \<open>np.unique(sequence)\<close>, which is
  1 at most, although its comment has the observed patterns of the length 1 be the
  unique values of the sequence.  For the alphabet \<open>a, b\<close>, the sequence \<open>abba\<close>,
  \<open>maxn_p = 3\<close> and the threshold 3/4 the sequence holds 2 distinct symbols, so the
  ratio of the length 1 is 2/2 and passes; the code stores Observed 1 and SI 1/2, stops
  at the length 1 and retains no matrix, where the first length with a ratio below the
  threshold is 2 (ratio 2/4) and one matrix should be retained.\<close>

theorem C3_length1_observed_code_bug:
  "BuildPTPs_run ex3b =
     Inr (0, \<lparr>sp_obs = [1, 0, 0], sp_si = [1 / 2, 0, 0], fnd_ip1 = [''a'', ''b''],
              acc_PTPs = []\<rparr>) \<and>
   BuildPTPs ex3b =
     Inr (ex3b\<lparr>n_p := 0, PTPs := [], ngrams := [], sparsities := [[], [], []],
                PTPset := True\<rparr>) \<and>
   np_unique (sequence ex3b) = ''ab'' \<and>
   t_np ex3b \<le> of_nat (length (np_unique (sequence ex3b))) / of_nat (n_s ex3b ^ 1) \<and>
   length (np_unique (map butlast (map (\<lambda>c. [c]) (np_unique sq)))) \<le> 1"
proof -
  have a: "BuildPTPs_run ex3b =
     Inr (0, \<lparr>sp_obs = [1, 0, 0], sp_si = [1 / 2, 0, 0], fnd_ip1 = [''a'', ''b''],
              acc_PTPs = []\<rparr>)"
    by code_simp
  have b: "BuildPTPs ex3b =
     Inr (ex3b\<lparr>n_p := 0, PTPs := [], ngrams := [], sparsities := [[], [], []],
                PTPset := True\<rparr>)"
    by code_simp
  have c: "np_unique (sequence ex3b) = ''ab''" by code_simp
  have d: "t_np ex3b \<le> of_nat (length (np_unique (sequence ex3b))) / of_nat (n_s ex3b ^ 1)"
    unfolding c by (simp add: ex3b_def n_s_def)
  have e: "length (np_unique (map butlast (map (\<lambda>c. [c]) (np_unique sq)))) \<le> 1"
    by (rule length1_observed_le_1)
  from a b c d e show ?thesis by blast
qed

text \<open>C7: after a stop by the sparsity rule at the length \<open>L\<close>, the stored table is
  claimed to cover the length \<open>L\<close> too, one length more than the retained matrices.
  For the sequence \<open>abba\<close> over \<open>a, b\<close> with \<open>maxn_p = 3\<close> and the threshold 1/3 the
  build stops at the length 3 (ratio 1/4) and retains 2 matrices; the stored table has
  2 entries in each row, not 3.\<close>

theorem C7_stored_table_stops_before_L_counterexample:
  "BuildPTPs_run ex3 = Inr (2, ex3_state) \<and> sp_si ex3_state ! 2 < t_np ex3 \<and>
   BuildPTPs ex3 = Inr ex3_built \<and> length (PTPs ex3_built) = 2 \<and>
   map length (sparsities ex3_built) = [2, 2, 2]"
  using ex3_run ex3_build by (simp add: ex3_def ex3_state_def ex3_built_def)

text \<open>C7, amended: when \<open>BuildPTPs\<close> returns, each of the three rows of the stored
  sparsity table (Observed, Possible, SI) is cut to the \<open>n_p\<close> retained lengths, as
  many as there are retained PTP matrices; the length whose ratio triggered the stop is
  left out.\<close>

theorem C7_sparsity_table:
  assumes "BuildPTPs self = Inr m"
  shows "\<exists>st. BuildPTPs_run self = Inr (n_p m, st) \<and>
     sparsities m = [take (n_p m) (sp_obs st),
                     map (\<lambda>L. of_nat (n_s self ^ L)) [1..<n_p m + 1],
                     take (n_p m) (sp_si st)] \<and>
     map length (sparsities m) = [n_p m, n_p m, n_p m] \<and>
     length (PTPs m) = n_p m"
proof -
  from assms obtain st where run: "BuildPTPs_run self = Inr (n_p m, st)"
    and P: "PTPs m = acc_PTPs st"
    and sp: "sparsities m = map (take (n_p m))
           [sp_obs st, map (\<lambda>i. of_nat (n_s self ^ i)) [1..<nat (maxn_p self) + 1], sp_si st]"
    by (rule BuildPTPs_InrD)
  note pr = BuildPTPs_run_props[OF run]
  have "take (n_p m) [1..<nat (maxn_p self) + 1] = [1..<1 + n_p m]"
    using pr(2) by (intro take_upt) simp
  then have poss: "take (n_p m) (map (\<lambda>i. of_nat (n_s self ^ i)) [1..<nat (maxn_p self) + 1]) =
      map (\<lambda>L. (of_nat (n_s self ^ L) :: rat)) [1..<n_p m + 1]"
    by (simp only: take_map add.commute)
  have tab: "sparsities m = [take (n_p m) (sp_obs st),
                     map (\<lambda>L. of_nat (n_s self ^ L)) [1..<n_p m + 1],
                     take (n_p m) (sp_si st)]"
    unfolding sp using poss by simp
  have len: "map length (sparsities m) = [n_p m, n_p m, n_p m]"
    unfolding tab using pr(2,3,4) by simp
  from run tab len pr(1) P show ?thesis by (intro exI[of _ st]) simp
qed

theorem C7_sparsity_table_witness:
  "BuildPTPs ex3 = Inr ex3_built \<and> n_p ex3_built = 2 \<and>
   sparsities ex3_built = [[1, 2], [2, 4], [1 / 2, 1 / 2]] \<and>
   map length (sparsities ex3_built) = [n_p ex3_built, n_p ex3_built, n_p ex3_built]"
proof -
  from C7_sparsity_table[OF ex3_build] have
    "map length (sparsities ex3_built) = [n_p ex3_built, n_p ex3_built, n_p ex3_built]"
    by blast
  with ex3_build show ?thesis by (simp add: ex3_built_def)
qed


text \<open>C4: for every alphabet and every length \<open>L\<close> in \<open>1..maxLength\<close> the list of
  ngrams of length \<open>L\<close> is claimed to be sorted in the lexicographic order induced by
  the alphabet's declared order.  \<open>MakenGrams\<close> sorts each column with \<open>sort()\<close>, by
  code point: for the alphabet \<open>b, a\<close> the list for \<open>L = 2\<close> is \<open>aa, ab, ba, bb\<close>,
  which the declared order \<open>b < a\<close> does not sort.\<close>

theorem C4_declared_order_counterexample:
  "distinct ''ba'' \<and> \<not> sorted_in_alphabet_order ''ba'' (MakenGrams_all ''ba'' 2 ! (2 - 1))"
  by code_simp

text \<open>C4, amended: for every alphabet of \<open>S\<close> distinct symbols, every \<open>maxLength\<close> and
  every \<open>L\<close> in \<open>1..maxLength\<close>, the list that \<open>MakenGrams\<close> generates for the length
  \<open>L\<close> holds exactly the \<open>S^L\<close> distinct patterns of length \<open>L\<close> over the alphabet;
  for \<open>L \<ge> 2\<close> it is sorted lexicographically by code point, and it is sorted in the
  order induced by the alphabet's declared order when \<open>L = 1\<close> (the list is the
  alphabet) or the alphabet is declared in ascending order of code points; for
  \<open>L \<ge> 2\<close> its prefixes of length \<open>L - 1\<close> are, as a set, the list for \<open>L - 1\<close>, and
  the single-length mode returns the same list.\<close>

theorem C4_ngram_lists:
  assumes "distinct al" and "1 \<le> L" and "int L \<le> mx"
  shows "length (MakenGrams_all al mx ! (L - 1)) = length al ^ L \<and>
         distinct (MakenGrams_all al mx ! (L - 1)) \<and>
         set (MakenGrams_all al mx ! (L - 1)) = {s. length s = L \<and> set s \<subseteq> set al} \<and>
         (2 \<le> L \<longrightarrow> sorted (MakenGrams_all al mx ! (L - 1))) \<and>
         (L = 1 \<or> sorted al \<longrightarrow>
            sorted_in_alphabet_order al (MakenGrams_all al mx ! (L - 1))) \<and>
         (2 \<le> L \<longrightarrow> take (L - 1) ` set (MakenGrams_all al mx ! (L - 1)) =
                       set (MakenGrams_all al mx ! (L - 2))) \<and>
         (2 \<le> L \<longrightarrow> MakenGrams_only al (int L) = MakenGrams_all al mx ! (L - 1))"
proof (cases "L = 1")
  case True
  have "distinct (map (\<lambda>c. [c]) al)"
    using assms(1) by (simp add: distinct_map inj_on_def)
  with True assms(1) ngram_list_cases[OF assms(2,3), of al] show ?thesis
    by (simp add: MakenGrams_all_0 alphabet_sorted_in_own_order)
next
  case False
  with assms have L2: "2 \<le> L" by simp
  let ?G = "product_lists (replicate L (sort al))"
  have G: "MakenGrams_all al mx ! (L - 1) = ?G"
    using False MakenGrams_all_nth[OF assms(2,3), of al] by simp
  have 1: "length ?G = length al ^ L" by (simp add: length_product_replicate)
  have 2: "distinct ?G" using assms(1) by (simp add: distinct_product_replicate)
  have 3: "set ?G = {s. length s = L \<and> set s \<subseteq> set al}"
    by (simp add: set_product_replicate)
  have 4: "sorted ?G" using assms(1) by (simp add: sorted_product_replicate)
  have 5: "sorted_in_alphabet_order al ?G" if "sorted al"
  proof -
    have "\<forall>x\<in>set ?G. set x \<subseteq> set al" using 3 by simp
    from sorted_in_alphabet_order_iff[OF that assms(1) this] 4 show ?thesis by simp
  qed
  have 6: "take (L - 1) ` set ?G = set (MakenGrams_all al mx ! (L - 2))"
  proof -
    from L2 obtain k where k: "L = Suc k" "1 \<le> k" by (cases L) auto
    have "take k ` set (product_lists (replicate (Suc k) (sort al))) =
          set (product_lists (replicate k (sort al)))"
      by (rule prefixes_product_replicate[OF k(2)])
    also have "\<dots> = {s. length s = k \<and> set s \<subseteq> set al}"
      by (simp add: set_product_replicate)
    also have "\<dots> = set (MakenGrams_all al mx ! (k - 1))"
      using ngram_list_cases[of k mx al] k assms(3) by simp
    finally show ?thesis using k by simp
  qed
  have 7: "MakenGrams_only al (int L) = ?G"
    using assms(2) by (rule MakenGrams_only_eq)
  show ?thesis unfolding G using 1 2 3 4 5 6 7 False by simp
qed

theorem C4_ngram_lists_witness:
  "distinct ''ab'' \<and> (1::nat) \<le> 2 \<and> int 2 \<le> 2 \<and>
   MakenGrams_all ''ab'' 2 ! (2 - 1) = [''aa'', ''ab'', ''ba'', ''bb''] \<and>
   length [''aa'', ''ab'', ''ba'', ''bb''] = length ''ab'' ^ 2 \<and>
   sorted_in_alphabet_order ''ab'' [''aa'', ''ab'', ''ba'', ''bb''] \<and>
   take (2 - 1) ` set [''aa'', ''ab'', ''ba'', ''bb''] = set (MakenGrams_all ''ab'' 2 ! (2 - 2)) \<and>
   MakenGrams_only ''ab'' (int 2) = [''aa'', ''ab'', ''ba'', ''bb'']"
proof -
  have g: "MakenGrams_all ''ab'' 2 ! (2 - 1) = [''aa'', ''ab'', ''ba'', ''bb'']"
    by code_simp
  have d: "distinct ''ab''" and s: "sorted ''ab''" by simp_all
  have l: "(1::nat) \<le> 2" and m: "int 2 \<le> 2" by simp_all
  note inst = C4_ngram_lists[OF d l m, unfolded g]
  from inst have a: "length [''aa'', ''ab'', ''ba'', ''bb''] = length ''ab'' ^ 2"
    by blast
  from inst s have b: "sorted_in_alphabet_order ''ab'' [''aa'', ''ab'', ''ba'', ''bb'']"
    by blast
  from inst have "(2::nat) \<le> 2 \<longrightarrow>
      take (2 - 1) ` set [''aa'', ''ab'', ''ba'', ''bb''] = set (MakenGrams_all ''ab'' 2 ! (2 - 2))"
    by blast
  then have c: "take (2 - 1) ` set [''aa'', ''ab'', ''ba'', ''bb''] =
      set (MakenGrams_all ''ab'' 2 ! (2 - 2))"
    by (rule mp) simp
  from inst have "(2::nat) \<le> 2 \<longrightarrow>
      MakenGrams_only ''ab'' (int 2) = [''aa'', ''ab'', ''ba'', ''bb'']"
    by blast
  then have e: "MakenGrams_only ''ab'' (int 2) = [''aa'', ''ab'', ''ba'', ''bb'']"
    by (rule mp) simp
  from d l m g a b c e show ?thesis by blast
qed



text \<open>C10: when an occurrence of a candidate pattern \<open>g\<close> is followed by a symbol
  \<open>c\<close> that is not in the alphabet, \<open>BuildPTP\<close> still appends \<open>g + c\<close> to the found
  patterns, while the row of \<open>g\<close> counts the alphabet's symbols only and its total is
  the number of followers that are alphabet symbols; \<open>g + c\<close> is in no list of ngrams
  of the alphabet, and \<open>BuildPTP\<close> for any of these lists with the found patterns as
  the reduced candidates fails in the lookup of the candidates' indices (ValueError).
  The alphabet's symbols are distinct, as the data model has it.\<close>

theorem C10_non_alphabet_follower:
  assumes "BuildPTP self ngs red = Inr (P, fnd)"
    and "g \<in> set (case red of None \<Rightarrow> ngs | Some rd \<Rightarrow> rd)"
    and "c \<in> set (followers self (length (hd ngs)) g)"
    and "c \<notin> set (alpha self)" and "distinct (alpha self)"
  shows "g @ [c] \<in> set fnd \<and>
     (\<exists>i<length ngs. ngs ! i = g \<and>
        (\<forall>j<n_s self. P ! j ! i =
           of_nat (count_list (followers self (length (hd ngs)) g) (alpha self ! j))) \<and>
        (alpha self \<noteq> [] \<longrightarrow> P ! n_s self ! i =
           of_nat (length (filter (\<lambda>d. d \<in> set (alpha self))
                             (followers self (length (hd ngs)) g))))) \<and>
     (\<forall>ngs'\<in>set (MakenGrams_all (alpha self) mx).
        g @ [c] \<notin> set ngs' \<and>
        BuildPTP self ngs' (Some fnd) = Inl (if ngs' = [] then IndexError else ValueError))"
proof -
  let ?np = "length (hd ngs)" and ?W = "length ngs" and ?S = "n_s self"
  let ?chars = "followers self ?np g"
  from assms(1) obtain cs P' where ne: "ngs \<noteq> []"
    and loop: "BuildPTP_loop self ?np cs (replicate ?S (replicate ?W 0), []) = (P', fnd)"
    and P: "P = finish_PTP P'"
    and cons: "\<forall>(i, g)\<in>set cs. i < ?W \<and> ngs ! i = g"
    and snd: "snd ` set cs = set (case red of None \<Rightarrow> ngs | Some rd \<Rightarrow> rd)"
    by (rule BuildPTP_candidates)
  from assms(2) snd obtain i where ig: "(i, g) \<in> set cs" by force
  with cons have i: "i < ?W" "ngs ! i = g" by auto
  \<comment> \<open>the found patterns\<close>
  have "fnd = [] @ concat (map (\<lambda>(i, g). map (\<lambda>a. g @ [a]) (np_unique (followers self ?np g))) cs)"
    using BuildPTP_loop_fnd[of self ?np cs "replicate ?S (replicate ?W 0)" "[]"] loop by simp
  moreover have "g @ [c] \<in> set (map (\<lambda>a. g @ [a]) (np_unique ?chars))"
    using assms(3) by simp
  ultimately have 1: "g @ [c] \<in> set fnd" using ig by force
  \<comment> \<open>the counts\<close>
  have rows: "length P' = ?S \<and> (\<forall>j<?S. length (P' ! j) = ?W) \<and>
     (\<forall>(i, g)\<in>set cs. \<forall>j<?S. P' ! j ! i = follow_count self ?np g j) \<and>
     (\<forall>i. i \<notin> fst ` set cs \<longrightarrow> (\<forall>j<?S. P' ! j ! i = replicate ?S (replicate ?W 0) ! j ! i))"
    by (rule BuildPTP_loop_rows[OF loop _ _ cons]) (use cons in auto)
  then have lenP': "length P' = ?S" and rowlen: "\<forall>j<?S. length (P' ! j) = ?W"
    and cnt': "\<forall>(i, g)\<in>set cs. \<forall>j<?S. P' ! j ! i = follow_count self ?np g j"
    by blast+
  from cnt' ig have cnt: "\<forall>j<?S. P' ! j ! i = follow_count self ?np g j" by blast
  have 2: "\<forall>j<?S. P ! j ! i = of_nat (count_list ?chars (alpha self ! j))"
    using cnt finish_PTP_parts(2)[OF lenP'] P by (simp add: follow_count_def)
  have 3: "P ! ?S ! i = of_nat (length (filter (\<lambda>d. d \<in> set (alpha self)) ?chars))"
    if "alpha self \<noteq> []"
  proof -
    from that lenP' have "P' \<noteq> []" by (auto simp: n_s_def)
    moreover have "\<forall>c\<in>set P'. length c = ?W"
      using rowlen lenP' by (auto simp: in_set_conv_nth)
    ultimately have "length (zip_star P') = ?W" by (rule zip_star_length)
    with i have iz: "i < length (zip_star P')" by simp
    have "P ! ?S ! i = sum_list (zip_star P' ! i)"
      using finish_PTP_parts(1)[OF lenP'] P iz by simp
    also have "\<dots> = sum_list (map (\<lambda>c. c ! i) P')"
      using zip_star_nth[OF iz] by simp
    also have "\<dots> = (\<Sum>j<?S. P' ! j ! i)"
      using lenP' by (simp add: sum_list_map_nth)
    also have "\<dots> = (\<Sum>j<?S. of_nat (count_list ?chars (alpha self ! j)))"
      using cnt by (simp add: follow_count_def)
    also have "\<dots> = of_nat (sum_list (map (count_list ?chars) (alpha self)))"
      by (simp add: sum_list_map_nth n_s_def)
    also have "\<dots> = of_nat (length (filter (\<lambda>d. d \<in> set (alpha self)) ?chars))"
      using sum_count_list_distinct[OF assms(5)] by simp
    finally show ?thesis .
  qed
  \<comment> \<open>the next scale\<close>
  have 4: "g @ [c] \<notin> set ngs' \<and>
        BuildPTP self ngs' (Some fnd) = Inl (if ngs' = [] then IndexError else ValueError)"
    if "ngs' \<in> set (MakenGrams_all (alpha self) mx)" for ngs'
  proof -
    have n: "g @ [c] \<notin> set ngs'"
    proof
      assume "g @ [c] \<in> set ngs'"
      from MakenGrams_all_over_alphabet[OF that this] assms(4) show False by simp
    qed
    from BuildPTP_missing_candidate[OF 1 n, of self] n show ?thesis by (rule conjI[rotated])
  qed
  from 1 2 3 4 i show ?thesis by blast
qed

theorem C10_non_alphabet_follower_witness:
  "BuildPTP ex10 [''a'', ''b''] None =
     Inr ([[0, 0], [1, 0], [1, 0], [0, 0], [1, 0]], [''ab'', ''bc'']) \<and>
   ''b'' \<in> set [''a'', ''b''] \<and> CHR ''c'' \<in> set (followers ex10 (length (hd [''a'', ''b''])) ''b'') \<and>
   CHR ''c'' \<notin> set (alpha ex10) \<and> distinct (alpha ex10) \<and>
   ''bc'' \<in> set [''ab'', ''bc''] \<and>
   BuildPTP ex10 [''aa'', ''ab'', ''ba'', ''bb''] (Some [''ab'', ''bc'']) = Inl ValueError"
proof -
  have h2: "''b'' \<in> set (case None of None \<Rightarrow> [''a'', ''b''] | Some rd \<Rightarrow> rd)" by simp
  have h3: "CHR ''c'' \<in> set (followers ex10 (length (hd [''a'', ''b''])) ''b'')"
    using ex10_followers by simp
  have h4: "CHR ''c'' \<notin> set (alpha ex10)" and h5: "distinct (alpha ex10)"
    by (simp_all add: ex10_def)
  note inst = C10_non_alphabet_follower[OF ex10_build h2 h3 h4 h5, of 2]
  from inst have a: "''b'' @ [CHR ''c''] \<in> set [''ab'', ''bc'']" by (rule conjunct1)
  from inst have "\<forall>ngs'\<in>set (MakenGrams_all (alpha ex10) 2).
        ''b'' @ [CHR ''c''] \<notin> set ngs' \<and>
        BuildPTP ex10 ngs' (Some [''ab'', ''bc'']) = Inl (if ngs' = [] then IndexError else ValueError)"
    by (rule conjunct2[THEN conjunct2])
  moreover have "[''aa'', ''ab'', ''ba'', ''bb''] \<in> set (MakenGrams_all (alpha ex10) 2)"
    using ex10_ngrams by (simp add: ex10_def)
  ultimately have b: "BuildPTP ex10 [''aa'', ''ab'', ''ba'', ''bb''] (Some [''ab'', ''bc''])
      = Inl (if [''aa'', ''ab'', ''ba'', ''bb''] = [] then IndexError else ValueError)"
    by blast
  from ex10_build h3 h4 h5 a b show ?thesis by simp
qed


text \<open>C5: when the adjusted weight \<open>w\<close> of \<open>Predict\<close> is zero, \<open>Predict\<close> is claimed to
  report an explicit error of its own that tells the degenerate model apart.  The code
  has no such error: with every scale's row at total 0 the unguarded division
  \<open>sum(i)/w\<close> raises the arithmetic ZeroDivisionError, and with no scale at all (the
  empty context, \<open>w = 0\<close> from the start) \<open>max\<close> of the empty list raises ValueError,
  the error that a failed lookup of the context raises too (here the context \<open>c\<close>,
  which is no ngram).\<close>

theorem C5_no_degenerate_model_error_counterexample:
  "pred_weight ex5 (Some []) = 0 \<and> Predict ex5 (Some []) = Inl ValueError \<and>
   py_index (ngrams ex5 ! 0) ''c'' = Inl ValueError \<and>
   Predict ex5 (Some ''c'') = Inl ValueError \<and>
   Predict ex5 None = Inl ZeroDivisionError"
proof -
  have a: "pred_weight ex5 (Some []) = 0" by code_simp
  have b: "Predict ex5 (Some []) = Inl ValueError" by code_simp
  have c: "py_index (ngrams ex5 ! 0) ''c'' = Inl ValueError" by code_simp
  have d: "Predict ex5 (Some ''c'') = Inl ValueError" by code_simp
  have e: "Predict ex5 None = Inl ZeroDivisionError" by code_simp
  from a b c d e show ?thesis by blast
qed

text \<open>C5, amended: when the adjusted weight \<open>w\<close> of \<open>Predict\<close> reaches zero, \<open>Predict\<close>
  returns neither probabilities nor a symbol but raises: when there is a scale
  (\<open>w \<ge> 1\<close> at the start) and every scale \<open>i < w\<close> has a row with total 0 for the
  context, the division \<open>sum(i)/w\<close> raises ZeroDivisionError, and \<open>Predict\<close> raises
  this error in no other case; when \<open>w = 0\<close> from the start, \<open>max\<close> of the empty list
  raises ValueError.\<close>

theorem C5_degenerate_model:
  "(Predict self predStart = Inl ZeroDivisionError \<longleftrightarrow>
      0 < pred_weight self predStart \<and>
      (\<forall>i<pred_weight self predStart.
         \<exists>row. scale_row self (pred_context self predStart) i = Inr (row, 0) \<and> row \<noteq> [])) \<and>
   (pred_weight self predStart = 0 \<longrightarrow> Predict self predStart = Inl ValueError)"
proof
  let ?w = "pred_weight self predStart" and ?ps = "pred_context self predStart"
  let ?row = "\<lambda>i. fst (projr (scale_row self ?ps i))"
  let ?tot = "\<lambda>i. snd (projr (scale_row self ?ps i))"
  have zero: "int ?w - int (length (filter (\<lambda>i. ?tot i = 0) [0..<?w])) = 0 \<longleftrightarrow>
      (\<forall>i<?w. ?tot i = 0)"
    using length_filter_eq_iff[of "\<lambda>i. ?tot i = 0" "[0..<?w]"] by auto
  have ne: "zip_star ([] @ map ?row [0..<?w]) \<noteq> [] \<longleftrightarrow> 0 < ?w \<and> (\<forall>i<?w. ?row i \<noteq> [])"
    unfolding zip_star_ne_iff by (auto simp: image_iff) (metis atLeastLessThan_iff le0)
  have "Predict self predStart = Inl ZeroDivisionError \<longleftrightarrow>
      (\<forall>i<?w. \<exists>r. scale_row self ?ps i = Inr r) \<and> (\<forall>i<?w. ?tot i = 0) \<and>
      0 < ?w \<and> (\<forall>i<?w. ?row i \<noteq> [])"
    unfolding Predict_ZeroDivisionError_iff Predict_loop_Inr using zero ne by auto
  also have "\<dots> \<longleftrightarrow> 0 < ?w \<and> (\<forall>i<?w. \<exists>row. scale_row self ?ps i = Inr (row, 0) \<and> row \<noteq> [])"
  proof
    assume a: "(\<forall>i<?w. \<exists>r. scale_row self ?ps i = Inr r) \<and> (\<forall>i<?w. ?tot i = 0) \<and>
      0 < ?w \<and> (\<forall>i<?w. ?row i \<noteq> [])"
    have "\<exists>row. scale_row self ?ps i = Inr (row, 0) \<and> row \<noteq> []" if "i < ?w" for i
    proof -
      from a that obtain r where r: "scale_row self ?ps i = Inr r" by blast
      obtain row t where rt: "r = (row, t)" by (cases r)
      from a that r rt have "t = 0" "row \<noteq> []" by auto
      with r rt show ?thesis by simp
    qed
    with a show "0 < ?w \<and> (\<forall>i<?w. \<exists>row. scale_row self ?ps i = Inr (row, 0) \<and> row \<noteq> [])"
      by blast
  next
    assume b: "0 < ?w \<and> (\<forall>i<?w. \<exists>row. scale_row self ?ps i = Inr (row, 0) \<and> row \<noteq> [])"
    have "(\<exists>r. scale_row self ?ps i = Inr r) \<and> ?tot i = 0 \<and> ?row i \<noteq> []" if "i < ?w" for i
    proof -
      from b that obtain row where "scale_row self ?ps i = Inr (row, 0)" "row \<noteq> []" by blast
      then show ?thesis by simp
    qed
    with b show "(\<forall>i<?w. \<exists>r. scale_row self ?ps i = Inr r) \<and> (\<forall>i<?w. ?tot i = 0) \<and>
      0 < ?w \<and> (\<forall>i<?w. ?row i \<noteq> [])" by blast
  qed
  finally show "Predict self predStart = Inl ZeroDivisionError \<longleftrightarrow>
      0 < ?w \<and> (\<forall>i<?w. \<exists>row. scale_row self ?ps i = Inr (row, 0) \<and> row \<noteq> [])" .
next
  show "pred_weight self predStart = 0 \<longrightarrow> Predict self predStart = Inl ValueError"
    unfolding Predict_eq by (simp add: average_eq py_max_def)
qed

theorem C5_degenerate_model_witness:
  "BuildPTPs ex5_input = Inr ex5 \<and> pred_weight ex5 None = 1 \<and>
   scale_row ex5 (pred_context ex5 None) 0 = Inr ([0, 0], 0) \<and>
   Predict ex5 None = Inl ZeroDivisionError \<and>
   pred_weight ex5 (Some []) = 0 \<and> Predict ex5 (Some []) = Inl ValueError"
proof -
  have w: "pred_weight ex5 None = 1" by code_simp
  have r: "scale_row ex5 (pred_context ex5 None) 0 = Inr ([0, 0], 0)" by code_simp
  have w0: "pred_weight ex5 (Some []) = 0" by code_simp
  from w r have "0 < pred_weight ex5 None \<and>
      (\<forall>i<pred_weight ex5 None.
         \<exists>row. scale_row ex5 (pred_context ex5 None) i = Inr (row, 0) \<and> row \<noteq> [])"
    by simp
  with C5_degenerate_model[of ex5 None] have a: "Predict ex5 None = Inl ZeroDivisionError"
    by blast
  from C5_degenerate_model[of ex5 "Some []"] w0 have b: "Predict ex5 (Some []) = Inl ValueError"
    by blast
  from ex5_build w r a w0 b show ?thesis by blast
qed




text \<open>C8: for every two built models \<open>A\<close> and \<open>B\<close>, whose alphabet sizes and retained
  scale counts may differ, \<open>Distance(A, B)\<close> equals \<open>Distance(B, A)\<close>, \<open>Distance(A, A)\<close>
  is 0, and \<open>Distance\<close> raises no error: at every scale the two blocks of relative
  frequencies have, after the padding with zeros, one shape.\<close>

theorem C8_Distance_symmetric:
  assumes "BuildPTPs a = Inr A" and "BuildPTPs b = Inr B"
  shows "Distance A B = Distance B A \<and> (\<exists>d. Distance A B = Inr d) \<and> Distance A A = Inr 0"
proof -
  from assms(1) have A: "PTPs_shaped A" by (rule BuildPTPs_shaped)
  from assms(2) have B: "PTPs_shaped B" by (rule BuildPTPs_shaped)
  have "\<exists>d. Distance A B = Inr d"
    unfolding Distance_def Let_def by (rule Distance_loop_shaped[OF A B]) simp_all
  moreover have "Distance A A = Inr 0"
    unfolding Distance_def Let_def by (rule Distance_loop_self[OF A]) simp
  ultimately show ?thesis using Distance_sym[of A B] by blast
qed

theorem C8_Distance_symmetric_witness:
  "BuildPTPs ex5_input = Inr ex5 \<and> BuildPTPs ex8_input = Inr ex8 \<and>
   n_s ex5 = 2 \<and> n_s ex8 = 3 \<and> n_p ex5 = 1 \<and> n_p ex8 = 2 \<and>
   Distance ex5 ex8 = Inr 5 \<and> Distance ex8 ex5 = Inr 5 \<and> Distance ex5 ex5 = Inr 0"
proof -
  have v: "Distance ex5 ex8 = Inr 5" by code_simp
  have n: "n_s ex5 = 2" "n_s ex8 = 3" "n_p ex5 = 1" "n_p ex8 = 2"
    by (simp_all add: n_s_def ex5_def ex5_input_def ex8_def ex8_input_def)
  from C8_Distance_symmetric[OF ex5_build ex8_build] v
  have "Distance ex8 ex5 = Inr 5" and "Distance ex5 ex5 = Inr 0" by simp_all
  with ex5_build ex8_build n v show ?thesis by blast
qed

end
